theory Spec2Isabelle
  imports Main
begin

section \<open>Values and collaborators\<close>

text \<open>
  JavaScript values as far as the watcher and the deep traversal tell them apart:
  the primitives, functions, and references to heap objects (plain objects and
  arrays). Numbers are compared only, never computed with, so a number is an
  integer tag or \<open>NaN\<close>, the one value that is not strictly equal to itself.
\<close>

type_synonym addr = nat

datatype jsval =
    Undefined
  | Null
  | Bool bool
  | Num int
  | NaN
  | Str string
  | Func addr
  | Ref addr

datatype exn = Thrown jsval

text \<open>A \<open>Dep\<close> (publisher) is known to the watcher by its \<open>id\<close> only.\<close>

datatype dep = Dep (dep_id: nat)

text \<open>
  Calls that leave the watcher towards its collaborators, in the order they are made:
  \<open>dep.addSub(this)\<close>, \<open>dep.removeSub(this)\<close>, \<open>dep.depend()\<close>,
  \<open>handleError(e, vm, ...)\<close>, \<open>traverse(value)\<close>, \<open>queueWatcher(this)\<close> and
  \<open>cb.call(vm, value, oldValue)\<close>.
\<close>

datatype call =
    AddSub dep
  | RemoveSub dep
  | Depend dep
  | HandleError exn
  | Traverse jsval
  | QueueWatcher
  | Callback jsval jsval

text \<open>The strict inequality \<open>a !== b\<close> of the language.\<close>

definition strict_neq :: "jsval \<Rightarrow> jsval \<Rightarrow> bool" where
  "strict_neq a b = (a = NaN \<or> b = NaN \<or> a \<noteq> b)"

text \<open>
  Modelled from the spec: \<open>isObject\<close> is imported from \<open>../util/index\<close>, which is
  not among the sources; the spec calls the values it accepts composite (object/array)
  values, here the references to heap objects.
\<close>

definition isObject :: "jsval \<Rightarrow> bool" where
  "isObject v = (case v of Ref a \<Rightarrow> True | _ \<Rightarrow> False)"

section \<open>The watcher and its world\<close>

text \<open>
  One watcher (\<open>this\<close>) with the part of the world its methods touch. The four
  containers \<open>deps\<close>, \<open>newDeps\<close>, \<open>depIds\<close>, \<open>newDepIds\<close> are fields holding
  references: \<open>arrays\<close> and \<open>sets\<close> are the stores the references point into, so that
  swapping two fields and clearing a container through one of them behave as in the
  source. The field \<open>value\<close> is \<open>value_w\<close>, the field \<open>id\<close> is \<open>id_w\<close>.
  \<open>Dep.target\<close> with its stack is \<open>targetStack\<close> (head: the current target);
  \<open>vm._watchers\<close> and \<open>vm._isBeingDestroyed\<close> are the two fields of \<open>vm\<close> that
  \<open>teardown\<close> uses; \<open>calls\<close> logs the calls to collaborators.
\<close>

record world =
  deep :: bool
  user :: bool
  lazy :: bool
  sync :: bool
  dirty :: bool
  active :: bool
  deps :: addr
  newDeps :: addr
  depIds :: addr
  newDepIds :: addr
  value_w :: jsval
  id_w :: nat
  arrays :: "addr \<Rightarrow> dep list"
  sets :: "addr \<Rightarrow> nat set"
  targetStack :: "nat list"
  vm_watchers :: "nat list"
  vm_isBeingDestroyed :: bool
  calls :: "call list"

definition emit :: "call \<Rightarrow> world \<Rightarrow> world" where
  "emit c s = s\<lparr>calls := calls s @ [c]\<rparr>"

text \<open>\<open>set.has(id)\<close>, \<open>set.add(id)\<close>, \<open>set.clear()\<close> and \<open>array.push(d)\<close>,
  \<open>array.length = 0\<close> through a reference.\<close>

definition set_has :: "addr \<Rightarrow> nat \<Rightarrow> world \<Rightarrow> bool" where
  "set_has r i s = (i \<in> sets s r)"

definition set_add :: "addr \<Rightarrow> nat \<Rightarrow> world \<Rightarrow> world" where
  "set_add r i s = s\<lparr>sets := (sets s)(r := insert i (sets s r))\<rparr>"

definition set_clear :: "addr \<Rightarrow> world \<Rightarrow> world" where
  "set_clear r s = s\<lparr>sets := (sets s)(r := {})\<rparr>"

definition array_push :: "addr \<Rightarrow> dep \<Rightarrow> world \<Rightarrow> world" where
  "array_push r d s = s\<lparr>arrays := (arrays s)(r := arrays s r @ [d])\<rparr>"

definition array_truncate :: "addr \<Rightarrow> world \<Rightarrow> world" where
  "array_truncate r s = s\<lparr>arrays := (arrays s)(r := [])\<rparr>"

subsection \<open>addDep\<close>

definition addDep :: "dep \<Rightarrow> world \<Rightarrow> world" where
  "addDep d s =
     (let i = dep_id d in
      if \<not> set_has (newDepIds s) i s then
        (let s1 = set_add (newDepIds s) i s;
             s2 = array_push (newDeps s1) d s1
         in if \<not> set_has (depIds s2) i s2 then emit (AddSub d) s2 else s2)
      else s)"

text \<open>The constructor gives the watcher four containers of its own.\<close>

definition buffers_distinct :: "world \<Rightarrow> bool" where
  "buffers_distinct s = (deps s \<noteq> newDeps s \<and> depIds s \<noteq> newDepIds s)"

text \<open>The pending list and the pending set name the same publishers, each once.\<close>

definition pending_consistent :: "world \<Rightarrow> bool" where
  "pending_consistent s =
     (sets s (newDepIds s) = dep_id ` set (arrays s (newDeps s)) \<and>
      distinct (map dep_id (arrays s (newDeps s))))"

text \<open>The publishers of a sequence of \<open>addDep\<close> calls, each at its first occurrence.\<close>

definition firsts :: "dep list \<Rightarrow> dep list" where
  "firsts ds = rev (remdups (rev ds))"

subsection \<open>cleanupDeps\<close>

text \<open>The loop \<open>while (i--)\<close> over \<open>this.deps\<close>, from the last index down to 0.\<close>

fun cleanupLoop :: "nat \<Rightarrow> world \<Rightarrow> world" where
  "cleanupLoop 0 s = s"
| "cleanupLoop (Suc i) s =
     (let d = arrays s (deps s) ! i in
      cleanupLoop i
        (if \<not> set_has (newDepIds s) (dep_id d) s then emit (RemoveSub d) s else s))"

definition cleanupDeps :: "world \<Rightarrow> world" where
  "cleanupDeps s =
     (let s1 = cleanupLoop (length (arrays s (deps s))) s;
          tmp = depIds s1;
          s2 = s1\<lparr>depIds := newDepIds s1\<rparr>;
          s3 = s2\<lparr>newDepIds := tmp\<rparr>;
          s4 = set_clear (newDepIds s3) s3;
          tmp' = deps s4;
          s5 = s4\<lparr>deps := newDeps s4\<rparr>;
          s6 = s5\<lparr>newDeps := tmp'\<rparr>
      in array_truncate (newDeps s6) s6)"

subsection \<open>get\<close>

text \<open>
  Modelled from the spec: \<open>pushTarget\<close> and \<open>popTarget\<close> are imported from
  \<open>./dep\<close>, which is not among the sources; the spec describes the global
  evaluation context as a stack with \<open>push(node)\<close> and \<open>pop()\<close>.
\<close>

definition pushTarget :: "world \<Rightarrow> world" where
  "pushTarget s = s\<lparr>targetStack := id_w s # targetStack s\<rparr>"

definition popTarget :: "world \<Rightarrow> world" where
  "popTarget s = s\<lparr>targetStack := tl (targetStack s)\<rparr>"

text \<open>
  What the code outside the watcher does during one call of \<open>get\<close>: the publishers
  whose \<open>depend()\<close> reaches \<open>this.addDep\<close> while the getter runs (in order, with
  repetitions), how the getter completes (\<open>Inr\<close> a value, \<open>Inl\<close> a throw), the
  publishers that reach \<open>this.addDep\<close> while \<open>traverse(value)\<close> reads the nested
  properties of the value, and how that call of \<open>traverse\<close> completes: it returns
  (\<open>None\<close>) or it throws, as it does when a getter it fires throws or when the
  recursion exhausts the stack.
\<close>

record evaluation =
  reads :: "dep list"
  outcome :: "exn + jsval"
  forced :: "jsval \<Rightarrow> dep list"
  traversal :: "jsval \<Rightarrow> exn option"

text \<open>
  For a value that is not an array or object \<open>traverse\<close> returns at its first
  test (line 22 of traverse.js): it reads nothing and does not throw.
\<close>

definition traverse_deps :: "evaluation \<Rightarrow> jsval \<Rightarrow> dep list" where
  "traverse_deps ev v = (if isObject v then forced ev v else [])"

definition traverse_throw :: "evaluation \<Rightarrow> jsval \<Rightarrow> exn option" where
  "traverse_throw ev v = (if isObject v then traversal ev v else None)"

text \<open>
  The \<open>finally\<close> block of \<open>get\<close>, entered with the current \<open>value\<close>. When
  \<open>traverse(value)\<close> throws, the block ends there, before \<open>popTarget()\<close> and
  \<open>this.cleanupDeps()\<close>, and the throw (\<open>Some\<close>) is how the block completes.
\<close>

definition get_finally :: "evaluation \<Rightarrow> jsval \<Rightarrow> world \<Rightarrow> exn option \<times> world" where
  "get_finally ev v s =
     (if deep s then
        (let s1 = fold addDep (traverse_deps ev v) (emit (Traverse v) s) in
         case traverse_throw ev v of
           Some e \<Rightarrow> (Some e, s1)
         | None \<Rightarrow> (None, cleanupDeps (popTarget s1)))
      else (None, cleanupDeps (popTarget s)))"

text \<open>
  \<open>get\<close>. A throw of the \<open>finally\<close> block replaces the completion of the
  \<open>try\<close> and \<open>catch\<close> blocks, a return as well as a pending throw.
\<close>

definition get :: "evaluation \<Rightarrow> world \<Rightarrow> (exn + jsval) \<times> world" where
  "get ev s =
     (let s1 = pushTarget s;
          s2 = fold addDep (reads ev) s1
      in case outcome ev of
           Inr v \<Rightarrow>
             (case get_finally ev v s2 of
                (None, s3) \<Rightarrow> (Inr v, s3)
              | (Some e', s3) \<Rightarrow> (Inl e', s3))
         | Inl e \<Rightarrow>
             if user s2 then
               (case get_finally ev Undefined (emit (HandleError e) s2) of
                  (None, s3) \<Rightarrow> (Inr Undefined, s3)
                | (Some e', s3) \<Rightarrow> (Inl e', s3))
             else
               (case get_finally ev Undefined s2 of
                  (None, s3) \<Rightarrow> (Inl e, s3)
                | (Some e', s3) \<Rightarrow> (Inl e', s3)))"

text \<open>The local variable \<open>value\<close> of \<open>get\<close> when the \<open>finally\<close> block is entered.\<close>

definition value_of :: "evaluation \<Rightarrow> jsval" where
  "value_of ev = (case outcome ev of Inr v \<Rightarrow> v | Inl e \<Rightarrow> Undefined)"


subsection \<open>run, update, evaluate\<close>

text \<open>
  The change callback: it is handed the new and the old value, finds the world as
  \<open>run\<close> has left it at the call, and returns or throws.
\<close>

type_synonym callback = "world \<Rightarrow> jsval \<Rightarrow> jsval \<Rightarrow> exn option"

definition run :: "evaluation \<Rightarrow> callback \<Rightarrow> world \<Rightarrow> exn option \<times> world" where
  "run ev cb s =
     (if active s then
        (case get ev s of
           (Inl e, s1) \<Rightarrow> (Some e, s1)
         | (Inr v, s1) \<Rightarrow>
             if strict_neq v (value_w s1) \<or> isObject v \<or> deep s1 then
               (let oldValue = value_w s1;
                    s2 = s1\<lparr>value_w := v\<rparr>;
                    s3 = emit (Callback v oldValue) s2
                in if user s3 then
                     (case cb s2 v oldValue of
                        Some e \<Rightarrow> (None, emit (HandleError e) s3)
                      | None \<Rightarrow> (None, s3))
                   else (cb s2 v oldValue, s3))
             else (None, s1))
      else (None, s))"

definition update :: "evaluation \<Rightarrow> callback \<Rightarrow> world \<Rightarrow> exn option \<times> world" where
  "update ev cb s =
     (if lazy s then (None, s\<lparr>dirty := True\<rparr>)
      else if sync s then run ev cb s
      else (None, emit QueueWatcher s))"

definition evaluate :: "evaluation \<Rightarrow> world \<Rightarrow> exn option \<times> world" where
  "evaluate ev s =
     (case get ev s of
        (Inl e, s1) \<Rightarrow> (Some e, s1)
      | (Inr v, s1) \<Rightarrow> (None, (s1\<lparr>value_w := v\<rparr>)\<lparr>dirty := False\<rparr>))"

subsection \<open>depend, teardown\<close>

fun dependLoop :: "nat \<Rightarrow> world \<Rightarrow> world" where
  "dependLoop 0 s = s"
| "dependLoop (Suc i) s = dependLoop i (emit (Depend (arrays s (deps s) ! i)) s)"

definition depend :: "world \<Rightarrow> world" where
  "depend s = dependLoop (length (arrays s (deps s))) s"

fun teardownLoop :: "nat \<Rightarrow> world \<Rightarrow> world" where
  "teardownLoop 0 s = s"
| "teardownLoop (Suc i) s = teardownLoop i (emit (RemoveSub (arrays s (deps s) ! i)) s)"

text \<open>
  Modelled from the spec: \<open>remove\<close> is imported from \<open>../util/index\<close>, which is not
  among the sources; the spec has \<open>teardown\<close> remove this node from its owning
  context's node registry, here one occurrence of the node's id.
\<close>

definition remove :: "nat list \<Rightarrow> nat \<Rightarrow> nat list" where
  "remove arr item = remove1 item arr"

definition teardown :: "world \<Rightarrow> world" where
  "teardown s =
     (if active s then
        (let s1 = (if \<not> vm_isBeingDestroyed s
                   then s\<lparr>vm_watchers := remove (vm_watchers s) (id_w s)\<rparr> else s);
             s2 = teardownLoop (length (arrays s1 (deps s1))) s1
         in s2\<lparr>active := False\<rparr>)
      else s)"

section \<open>The deep traversal\<close>

text \<open>
  The heap as \<open>_traverse\<close> sees it. An object is an array with its elements or a
  plain object with its own enumerable keys in the order of \<open>Object.keys\<close>; it is
  frozen or not (\<open>Object.isFrozen\<close>), a \<open>VNode\<close> instance or not, and carries the
  dep id of its observer (\<open>val.__ob__.dep.id\<close>) when \<open>val.__ob__\<close> is set.
\<close>

datatype key = Index nat | Name string

datatype shape = Array "jsval list" | Object "(string \<times> jsval) list"

record heap_object =
  shape :: shape
  frozen :: bool
  vnode :: bool
  ob_dep :: "nat option"

type_synonym heap = "addr \<Rightarrow> heap_object option"

text \<open>
  What a traversal does that can be seen from outside: it adds a dep id to the set
  \<open>seen\<close> (\<open>Enter\<close>) and it reads a property, \<open>val[i]\<close> or \<open>val[keys[i]]\<close>
  (\<open>Read\<close>), which is what fires the getter of a reactive property.
\<close>

datatype tevent = Enter nat | Read addr key

record tstate =
  seen :: "nat set"
  tlog :: "tevent list"

definition logged :: "tevent \<Rightarrow> tstate \<Rightarrow> tstate" where
  "logged e st = st\<lparr>tlog := tlog st @ [e]\<rparr>"

text \<open>The value of \<open>val[k]\<close> for a plain object, \<open>undefined\<close> for a missing key.\<close>

definition own_prop :: "(string \<times> jsval) list \<Rightarrow> string \<Rightarrow> jsval" where
  "own_prop ps k = (case map_of ps k of Some v \<Rightarrow> v | None \<Rightarrow> Undefined)"

text \<open>The keys the loop runs over, each with the value its read gives.\<close>

definition entries :: "shape \<Rightarrow> (key \<times> jsval) list" where
  "entries sh =
     (case sh of
        Array vs \<Rightarrow> map (\<lambda>i. (Index i, vs ! i)) [0..<length vs]
      | Object ps \<Rightarrow> map (\<lambda>k. (Name k, own_prop ps k)) (map fst ps))"

text \<open>
  The loops \<open>while (i--) _traverse(val[i], seen)\<close> and
  \<open>while (i--) _traverse(val[keys[i]], seen)\<close>, with the recursive call as \<open>f\<close>.
\<close>

fun traverse_loop ::
  "(jsval \<Rightarrow> tstate \<Rightarrow> tstate option) \<Rightarrow> addr \<Rightarrow> (key \<times> jsval) list \<Rightarrow> nat \<Rightarrow>
   tstate \<Rightarrow> tstate option" where
  "traverse_loop f a kvs 0 st = Some st"
| "traverse_loop f a kvs (Suc i) st =
     (case f (snd (kvs ! i)) (logged (Read a (fst (kvs ! i))) st) of
        None \<Rightarrow> None
      | Some st' \<Rightarrow> traverse_loop f a kvs i st')"

text \<open>
  \<open>_traverse\<close>, here \<open>traverse'\<close>. The recursion of the source need not end (a cycle
  of objects without observer), so the first argument bounds the depth of the
  recursion and \<open>None\<close> says that the bound was not enough. A reference to no object
  cannot occur; the traversal has nothing to do there.
\<close>

primrec traverse' :: "nat \<Rightarrow> heap \<Rightarrow> jsval \<Rightarrow> tstate \<Rightarrow> tstate option" where
  "traverse' 0 h val st = None"
| "traverse' (Suc n) h val st =
     (case val of
        Ref a \<Rightarrow>
          (case h a of
             None \<Rightarrow> Some st
           | Some ob \<Rightarrow>
               if frozen ob \<or> vnode ob then Some st
               else
                 (case ob_dep ob of
                    Some depId \<Rightarrow>
                      if depId \<in> seen st then Some st
                      else traverse_loop (traverse' n h) a (entries (shape ob))
                             (length (entries (shape ob)))
                             (logged (Enter depId) (st\<lparr>seen := insert depId (seen st)\<rparr>))
                  | None \<Rightarrow>
                      traverse_loop (traverse' n h) a (entries (shape ob))
                        (length (entries (shape ob))) st))
      | _ \<Rightarrow> Some st)"

text \<open>
  \<open>traverse\<close>: the traversal starts from the module's set \<open>seenObjects\<close>, which is
  cleared afterwards; the result is the new content of \<open>seenObjects\<close> with what the
  traversal did.
\<close>

definition traverse ::
  "nat \<Rightarrow> heap \<Rightarrow> jsval \<Rightarrow> nat set \<Rightarrow> (nat set \<times> tevent list) option" where
  "traverse n h val seenObjects =
     (case traverse' n h val \<lparr>seen = seenObjects, tlog = []\<rparr> of
        None \<Rightarrow> None
      | Some st \<Rightarrow> Some ({}, tlog st))"

text \<open>The dep ids a traversal has added to \<open>seen\<close>, in order.\<close>

fun entered :: "tevent list \<Rightarrow> nat list" where
  "entered [] = []"
| "entered (Enter d # es) = d # entered es"
| "entered (Read a k # es) = entered es"

text \<open>
  The values for which \<open>_traverse\<close> returns at its first test: not an array or
  object, or frozen, or a \<open>VNode\<close>.
\<close>

definition leaf :: "heap \<Rightarrow> jsval \<Rightarrow> bool" where
  "leaf h val =
     (case val of
        Ref a \<Rightarrow> (case h a of None \<Rightarrow> True | Some ob \<Rightarrow> frozen ob \<or> vnode ob)
      | _ \<Rightarrow> True)"

text \<open>
  The edges from an object without observer that the traversal would expand to the
  objects it holds, as pairs (held object, holder). A cycle of the heap that passes
  through no object with an observer (and no frozen object or \<open>VNode\<close>) is a cycle
  of these edges.
\<close>

definition plain_edges :: "heap \<Rightarrow> (addr \<times> addr) set" where
  "plain_edges h =
     {(c, p). \<exists>ob. h p = Some ob \<and> \<not> frozen ob \<and> \<not> vnode ob \<and> ob_dep ob = None \<and>
                   Ref c \<in> snd ` set (entries (shape ob))}"

text \<open>
  All the edges the traversal can follow, from an object that is neither frozen nor a
  \<open>VNode\<close> to the objects it holds, again as pairs (held object, holder); and the
  objects of a value: the object it refers to and what can be reached from there.
\<close>

definition held_edges :: "heap \<Rightarrow> (addr \<times> addr) set" where
  "held_edges h =
     {(c, p). \<exists>ob. h p = Some ob \<and> \<not> frozen ob \<and> \<not> vnode ob \<and>
                   Ref c \<in> snd ` set (entries (shape ob))}"

definition reach :: "heap \<Rightarrow> jsval \<Rightarrow> addr set" where
  "reach h val = (case val of Ref a \<Rightarrow> {c. (c, a) \<in> (held_edges h)\<^sup>*} | _ \<Rightarrow> {})"

text \<open>The dep ids of the observers in the heap.\<close>

definition dep_ids :: "heap \<Rightarrow> nat set" where
  "dep_ids h = {d. \<exists>a ob. h a = Some ob \<and> ob_dep ob = Some d}"

text \<open>
  How a traversal state develops: the log grows at its end, and \<open>seen\<close> grows by
  the dep ids entered, each of which was not in \<open>seen\<close> and is entered once.
\<close>

definition extends :: "tstate \<Rightarrow> tstate \<Rightarrow> bool" where
  "extends st st' =
     (\<exists>es. tlog st' = tlog st @ es \<and> seen st' = seen st \<union> set (entered es) \<and>
           distinct (entered es) \<and> set (entered es) \<inter> seen st = {})"

text \<open>
  The properties read by a traversal, in order; the slot \<open>k\<close> of an object \<open>p\<close>
  that the traversal would expand holding the object \<open>x\<close>; an object without
  observer that the traversal would expand.
\<close>

fun read_slots :: "tevent list \<Rightarrow> (addr \<times> key) list" where
  "read_slots [] = []"
| "read_slots (Read a k # es) = (a, k) # read_slots es"
| "read_slots (Enter d # es) = read_slots es"

definition holds_at :: "heap \<Rightarrow> addr \<Rightarrow> key \<Rightarrow> addr \<Rightarrow> bool" where
  "holds_at h p k x =
     (\<exists>ob. h p = Some ob \<and> \<not> frozen ob \<and> \<not> vnode ob \<and> (k, Ref x) \<in> set (entries (shape ob)))"

definition plain :: "heap \<Rightarrow> addr \<Rightarrow> bool" where
  "plain h x = (\<exists>ob. h x = Some ob \<and> \<not> frozen ob \<and> \<not> vnode ob \<and> ob_dep ob = None)"

text \<open>
  Two conditions on the objects of a value. The own keys of each of its plain
  objects are pairwise different, as the keys that \<open>Object.keys\<close> returns are. And
  every shared substructure passes through an object with an observer: an object
  without observer that the traversal would expand is held in at most one slot of
  the value's objects, and in none when it is the value itself.
\<close>

definition keys_distinct :: "heap \<Rightarrow> jsval \<Rightarrow> bool" where
  "keys_distinct h val =
     (\<forall>a\<in>reach h val. \<forall>ob ps. h a = Some ob \<and> shape ob = Object ps \<longrightarrow> distinct (map fst ps))"

definition sharing_observed :: "heap \<Rightarrow> jsval \<Rightarrow> bool" where
  "sharing_observed h val =
     (\<forall>x\<in>reach h val. plain h x \<longrightarrow>
        (\<forall>p\<in>reach h val. \<forall>q\<in>reach h val. \<forall>k m.
           holds_at h p k x \<and> holds_at h q m x \<longrightarrow> p = q \<and> k = m) \<and>
        (val = Ref x \<longrightarrow> (\<forall>p\<in>reach h val. \<forall>k. \<not> holds_at h p k x)))"

text \<open>
  What holds of the state of a traversal started on \<open>val\<close>: no property has been
  read twice; an object with an observer has been read only after its dep id was
  entered; an object without observer has been read only if it is \<open>val\<close> itself or
  a slot holding it has been read. An object is fresh while none of its properties
  has been read.
\<close>

definition well_logged :: "heap \<Rightarrow> jsval \<Rightarrow> tstate \<Rightarrow> bool" where
  "well_logged h val st =
     (distinct (read_slots (tlog st)) \<and>
      (\<forall>a k ob d. Read a k \<in> set (tlog st) \<and> h a = Some ob \<and> ob_dep ob = Some d \<longrightarrow>
                  d \<in> seen st) \<and>
      (\<forall>x k. Read x k \<in> set (tlog st) \<and> plain h x \<longrightarrow>
             val = Ref x \<or> (\<exists>p m. holds_at h p m x \<and> Read p m \<in> set (tlog st))))"

definition fresh :: "tstate \<Rightarrow> addr \<Rightarrow> bool" where
  "fresh st a = (\<forall>k. Read a k \<notin> set (tlog st))"

text \<open>
  The state in which a recursive call may be made on \<open>c\<close>: an object without
  observer is still fresh, and it is the value the traversal started on or comes from
  a slot that has been read.
\<close>

definition arrived :: "heap \<Rightarrow> jsval \<Rightarrow> jsval \<Rightarrow> tstate \<Rightarrow> bool" where
  "arrived h val c st =
     (\<forall>x. c = Ref x \<and> plain h x \<longrightarrow>
          fresh st x \<and>
          (val = Ref x \<or> (\<exists>q m. holds_at h q m x \<and> Read q m \<in> set (tlog st))))"

text \<open>
  An example heap on which a traversal cannot end: an array whose last element is
  an object without observer that holds itself.
\<close>

definition cyclic_heap :: heap where
  "cyclic_heap =
     [0 \<mapsto> \<lparr>shape = Array [Num 1, Ref 1], frozen = False, vnode = False, ob_dep = None\<rparr>,
      1 \<mapsto> \<lparr>shape = Object [(''me'', Ref 1)], frozen = False, vnode = False, ob_dep = None\<rparr>]"

section \<open>Sequences of method calls\<close>

text \<open>
  The methods of the watcher as data, to speak of everything that may be called on a
  node after some point; \<open>perform\<close> calls one and keeps the resulting world.
\<close>

datatype method_call =
    M_get evaluation
  | M_addDep dep
  | M_cleanupDeps
  | M_update evaluation callback
  | M_run evaluation callback
  | M_evaluate evaluation
  | M_depend
  | M_teardown

fun perform :: "method_call \<Rightarrow> world \<Rightarrow> world" where
  "perform (M_get ev) s = snd (get ev s)"
| "perform (M_addDep d) s = addDep d s"
| "perform M_cleanupDeps s = cleanupDeps s"
| "perform (M_update ev cb) s = snd (update ev cb s)"
| "perform (M_run ev cb) s = snd (run ev cb s)"
| "perform (M_evaluate ev) s = snd (evaluate ev s)"
| "perform M_depend s = depend s"
| "perform M_teardown s = teardown s"

section \<open>Observing the calls\<close>

text \<open>The invocations of the change callback among the calls, with their arguments.\<close>

fun callbacks :: "call list \<Rightarrow> (jsval \<times> jsval) list" where
  "callbacks [] = []"
| "callbacks (Callback a b # cs) = (a, b) # callbacks cs"
| "callbacks (c # cs) = callbacks cs"

section \<open>An example world\<close>

text \<open>
  A watcher between two evaluations, subscribed to the publishers 1 and 2 by its
  last evaluation, with empty pending containers.
\<close>

definition example_world :: world where
  "example_world =
     \<lparr>deep = False, user = False, lazy = False, sync = False, dirty = False, active = True,
      deps = 0, newDeps = 1, depIds = 0, newDepIds = 1, value_w = Num 1, id_w = 7,
      arrays = (\<lambda>r. [])(0 := [Dep 1, Dep 2]), sets = (\<lambda>r. {})(0 := {1, 2}),
      targetStack = [], vm_watchers = [7], vm_isBeingDestroyed = False, calls = []\<rparr>"

text \<open>
  Example evaluations and callbacks: a getter that touches \<open>ds\<close> and returns
  \<open>v\<close>, one that touches \<open>ds\<close> and throws \<open>e\<close> (neither with anything for
  \<open>traverse\<close> to find or to throw), a callback that returns and one that throws.
\<close>

definition returning :: "dep list \<Rightarrow> jsval \<Rightarrow> evaluation" where
  "returning ds v =
     \<lparr>reads = ds, outcome = Inr v, forced = (\<lambda>u. []), traversal = (\<lambda>u. None)\<rparr>"

definition throwing :: "dep list \<Rightarrow> exn \<Rightarrow> evaluation" where
  "throwing ds e =
     \<lparr>reads = ds, outcome = Inl e, forced = (\<lambda>u. []), traversal = (\<lambda>u. None)\<rparr>"

definition cb_quiet :: callback where
  "cb_quiet = (\<lambda>w a b. None)"

definition cb_failing :: callback where
  "cb_failing = (\<lambda>w a b. Some (Thrown (Str ''callback failed'')))"

text \<open>
  An example heap: an observed object (dep id 10) that holds itself and an array
  without observer, which holds the object again and a number.
\<close>

definition example_heap :: heap where
  "example_heap =
     [0 \<mapsto> \<lparr>shape = Object [(''self'', Ref 0), (''list'', Ref 1)], frozen = False,
             vnode = False, ob_dep = Some 10\<rparr>,
      1 \<mapsto> \<lparr>shape = Array [Ref 0, Num 3], frozen = False, vnode = False, ob_dep = None\<rparr>]"

section \<open>Dependency registration\<close>

lemmas store_defs =
  set_has_def set_add_def set_clear_def array_push_def array_truncate_def emit_def

lemma addDep_refs [simp]:
  "newDeps (addDep d s) = newDeps s" "newDepIds (addDep d s) = newDepIds s"
  "depIds (addDep d s) = depIds s" "deps (addDep d s) = deps s"
  by (simp_all add: addDep_def Let_def store_defs)

lemma fold_addDep_refs [simp]:
  "newDeps (fold addDep ds s) = newDeps s" "newDepIds (fold addDep ds s) = newDepIds s"
  "depIds (fold addDep ds s) = depIds s" "deps (fold addDep ds s) = deps s"
  by (induction ds arbitrary: s) simp_all

lemma addDep_sets:
  "sets (addDep d s) r = (if r = newDepIds s then insert (dep_id d) (sets s r) else sets s r)"
  by (simp add: addDep_def Let_def store_defs insert_absorb)

lemma addDep_arrays:
  "arrays (addDep d s) r =
     (if r = newDeps s \<and> dep_id d \<notin> sets s (newDepIds s) then arrays s r @ [d] else arrays s r)"
  by (simp add: addDep_def Let_def store_defs)

lemma addDep_calls:
  "calls (addDep d s) =
     (if dep_id d \<notin> sets s (newDepIds s) \<and> depIds s \<noteq> newDepIds s \<and> dep_id d \<notin> sets s (depIds s)
      then calls s @ [AddSub d] else calls s)"
  by (simp add: addDep_def Let_def store_defs)

lemma firsts_Nil [simp]: "firsts [] = []"
  by (simp add: firsts_def)

lemma firsts_snoc:
  "firsts (ds @ [d]) = (if d \<in> set ds then firsts ds else firsts ds @ [d])"
  by (simp add: firsts_def)

lemma set_firsts [simp]: "set (firsts ds) = set ds"
  by (simp add: firsts_def)

lemma distinct_firsts [simp]: "distinct (firsts ds)"
  by (simp add: firsts_def)

lemma inj_dep_id: "inj dep_id"
  by (rule injI) (simp add: dep.expand)

lemma dep_id_eq_iff [simp]: "dep_id d = dep_id d' \<longleftrightarrow> d = d'"
  by (auto simp: dep.expand)

lemma dep_id_image_iff [simp]: "dep_id d \<in> dep_id ` D \<longleftrightarrow> d \<in> D"
  using inj_dep_id by (simp add: inj_image_mem_iff)

lemma distinct_map_dep_id [simp]: "distinct (map dep_id ds) = distinct ds"
  using inj_dep_id by (simp add: distinct_map inj_on_def)

lemma fold_addDep_sets:
  "sets (fold addDep ds s) r =
     (if r = newDepIds s then sets s r \<union> dep_id ` set ds else sets s r)"
  by (induction ds rule: rev_induct) (auto simp: addDep_sets split: if_splits)

lemma fold_addDep_arrays:
  "arrays (fold addDep ds s) r =
     (if r = newDeps s
      then arrays s r @ filter (\<lambda>d. dep_id d \<notin> sets s (newDepIds s)) (firsts ds)
      else arrays s r)"
  by (induction ds rule: rev_induct)
     (auto simp: addDep_arrays fold_addDep_sets firsts_snoc split: if_splits)

lemma fold_addDep_calls:
  "depIds s \<noteq> newDepIds s \<Longrightarrow>
   calls (fold addDep ds s) =
     calls s @ map AddSub (filter (\<lambda>d. dep_id d \<notin> sets s (newDepIds s) \<and>
                                        dep_id d \<notin> sets s (depIds s)) (firsts ds))"
  by (induction ds rule: rev_induct)
     (auto simp: addDep_calls fold_addDep_sets firsts_snoc split: if_splits)

lemma fold_addDep_consistent:
  "pending_consistent s \<Longrightarrow> pending_consistent (fold addDep ds s)"
  by (auto simp: pending_consistent_def fold_addDep_sets fold_addDep_arrays)

text \<open>
  C1. During one evaluation (the pending containers start consistent, for instance
  empty), after any sequence \<open>ds\<close> of \<open>addDep\<close> calls: the pending list holds every
  publisher at most once and the pending set holds exactly the ids of the list (I2);
  the list has grown by the publishers of \<open>ds\<close> that were not pending, each at its
  first occurrence; and \<open>addSub\<close> has been called exactly for those of them whose id
  is not in the previous set \<open>depIds\<close>, once each, so that a publisher subscribed
  by the previous evaluation is not subscribed again (I3).
\<close>

theorem addDep_registers_once:
  assumes "buffers_distinct s" and "pending_consistent s"
  shows "distinct (map dep_id (arrays (fold addDep ds s) (newDeps s))) \<and>
         sets (fold addDep ds s) (newDepIds s) =
           dep_id ` set (arrays (fold addDep ds s) (newDeps s)) \<and>
         arrays (fold addDep ds s) (newDeps s) =
           arrays s (newDeps s) @
           filter (\<lambda>d. dep_id d \<notin> sets s (newDepIds s)) (firsts ds) \<and>
         calls (fold addDep ds s) =
           calls s @
           map AddSub (filter (\<lambda>d. dep_id d \<notin> sets s (newDepIds s) \<and>
                                    dep_id d \<notin> sets s (depIds s)) (firsts ds))"
proof -
  have "pending_consistent (fold addDep ds s)"
    using assms(2) by (rule fold_addDep_consistent)
  moreover have "depIds s \<noteq> newDepIds s"
    using assms(1) by (simp add: buffers_distinct_def)
  ultimately show ?thesis
    by (simp add: pending_consistent_def fold_addDep_arrays fold_addDep_calls)
qed

theorem addDep_registers_once_witness:
  "buffers_distinct example_world \<and> pending_consistent example_world \<and>
   arrays (fold addDep [Dep 2, Dep 3, Dep 2, Dep 3] example_world) (newDeps example_world) =
     [Dep 2, Dep 3] \<and>
   sets (fold addDep [Dep 2, Dep 3, Dep 2, Dep 3] example_world) (newDepIds example_world) =
     {2, 3} \<and>
   calls (fold addDep [Dep 2, Dep 3, Dep 2, Dep 3] example_world) = [AddSub (Dep 3)]"
proof -
  have b: "buffers_distinct example_world"
    by (simp add: buffers_distinct_def example_world_def)
  have p: "pending_consistent example_world"
    by (simp add: pending_consistent_def example_world_def)
  show ?thesis
    using b p addDep_registers_once [OF b p, of "[Dep 2, Dep 3, Dep 2, Dep 3]"]
    by (auto simp: example_world_def firsts_def)
qed

section \<open>Reconciliation\<close>

lemma emit_fields [simp]:
  "deps (emit c s) = deps s" "newDeps (emit c s) = newDeps s"
  "depIds (emit c s) = depIds s" "newDepIds (emit c s) = newDepIds s"
  "arrays (emit c s) = arrays s" "sets (emit c s) = sets s"
  "calls (emit c s) = calls s @ [c]"
  by (simp_all add: emit_def)

lemma cleanupLoop_eq:
  "n \<le> length (arrays s (deps s)) \<Longrightarrow>
   cleanupLoop n s =
     s\<lparr>calls := calls s @ map RemoveSub
        (filter (\<lambda>d. dep_id d \<notin> sets s (newDepIds s)) (rev (take n (arrays s (deps s)))))\<rparr>"
proof (induction n arbitrary: s)
  case 0
  show ?case by simp
next
  case (Suc n)
  then have n: "n < length (arrays s (deps s))" by simp
  show ?case
    using Suc.IH [of "emit (RemoveSub (arrays s (deps s) ! n)) s"] Suc.IH [of s] n
    by (simp add: Let_def set_has_def take_Suc_conv_app_nth) (simp add: emit_def)
qed

lemma cleanupDeps_eq:
  "cleanupDeps s =
     s\<lparr>calls := calls s @ map RemoveSub
          (filter (\<lambda>d. dep_id d \<notin> sets s (newDepIds s)) (rev (arrays s (deps s)))),
       depIds := newDepIds s, newDepIds := depIds s,
       sets := (sets s)(depIds s := {}),
       deps := newDeps s, newDeps := deps s,
       arrays := (arrays s)(deps s := [])\<rparr>"
  by (simp add: cleanupDeps_def Let_def cleanupLoop_eq set_clear_def array_truncate_def)

text \<open>
  C2. \<open>cleanupDeps\<close> calls \<open>removeSub\<close> on exactly the publishers of the list
  \<open>deps\<close> whose id is not in the pending set (from the last index down) and makes
  no other call; the fields \<open>depIds\<close>/\<open>newDepIds\<close> and \<open>deps\<close>/\<open>newDeps\<close>
  exchange their references, so the pending set and list become the current ones,
  the pending containers are empty, and no container other than the two old current
  ones is written. Over a whole evaluation that starts with empty pending containers
  and registers \<open>ds\<close>, the calls are the \<open>addSub\<close> for the publishers not in the old
  set followed by the \<open>removeSub\<close> for the old publishers not in \<open>ds\<close>: a publisher
  in both receives neither.
\<close>

theorem cleanupDeps_reconciles:
  assumes "buffers_distinct s"
  shows "calls (cleanupDeps s) =
           calls s @ map RemoveSub
             (filter (\<lambda>d. dep_id d \<notin> sets s (newDepIds s)) (rev (arrays s (deps s)))) \<and>
         depIds (cleanupDeps s) = newDepIds s \<and> newDepIds (cleanupDeps s) = depIds s \<and>
         deps (cleanupDeps s) = newDeps s \<and> newDeps (cleanupDeps s) = deps s \<and>
         sets (cleanupDeps s) (depIds (cleanupDeps s)) = sets s (newDepIds s) \<and>
         arrays (cleanupDeps s) (deps (cleanupDeps s)) = arrays s (newDeps s) \<and>
         sets (cleanupDeps s) (newDepIds (cleanupDeps s)) = {} \<and>
         arrays (cleanupDeps s) (newDeps (cleanupDeps s)) = [] \<and>
         (\<forall>r. r \<noteq> depIds s \<longrightarrow> sets (cleanupDeps s) r = sets s r) \<and>
         (\<forall>r. r \<noteq> deps s \<longrightarrow> arrays (cleanupDeps s) r = arrays s r) \<and>
         (sets s (newDepIds s) = {} \<and> arrays s (newDeps s) = [] \<longrightarrow>
            calls (cleanupDeps (fold addDep ds s)) =
              calls s @
              map AddSub (filter (\<lambda>d. dep_id d \<notin> sets s (depIds s)) (firsts ds)) @
              map RemoveSub (filter (\<lambda>d. d \<notin> set ds) (rev (arrays s (deps s)))))"
  using assms
  by (simp add: cleanupDeps_eq buffers_distinct_def fold_addDep_calls fold_addDep_sets
        fold_addDep_arrays)

theorem cleanupDeps_reconciles_witness:
  "buffers_distinct example_world \<and>
   calls (cleanupDeps (fold addDep [Dep 2, Dep 3, Dep 2] example_world)) =
     [AddSub (Dep 3), RemoveSub (Dep 1)] \<and>
   depIds (cleanupDeps example_world) = 1 \<and> newDepIds (cleanupDeps example_world) = 0 \<and>
   calls (cleanupDeps example_world) = [RemoveSub (Dep 2), RemoveSub (Dep 1)]"
proof -
  have b: "buffers_distinct example_world"
    by (simp add: buffers_distinct_def example_world_def)
  have e: "sets example_world (newDepIds example_world) = {} \<and>
           arrays example_world (newDeps example_world) = []"
    by (simp add: example_world_def)
  note r = cleanupDeps_reconciles [OF b, of "[Dep 2, Dep 3, Dep 2]"]
  from r e have "calls (cleanupDeps (fold addDep [Dep 2, Dep 3, Dep 2] example_world)) =
      calls example_world @
      map AddSub (filter (\<lambda>d. dep_id d \<notin> sets example_world (depIds example_world))
                    (firsts [Dep 2, Dep 3, Dep 2])) @
      map RemoveSub (filter (\<lambda>d. d \<notin> set [Dep 2, Dep 3, Dep 2])
                       (rev (arrays example_world (deps example_world))))"
    by blast
  also have "\<dots> = [AddSub (Dep 3), RemoveSub (Dep 1)]"
    by (simp add: example_world_def firsts_def)
  finally have 1: "calls (cleanupDeps (fold addDep [Dep 2, Dep 3, Dep 2] example_world)) =
      [AddSub (Dep 3), RemoveSub (Dep 1)]" .
  from r have "depIds (cleanupDeps example_world) = newDepIds example_world"
    and "newDepIds (cleanupDeps example_world) = depIds example_world"
    and "calls (cleanupDeps example_world) =
           calls example_world @ map RemoveSub
             (filter (\<lambda>d. dep_id d \<notin> sets example_world (newDepIds example_world))
                (rev (arrays example_world (deps example_world))))"
    by blast+
  then have 2: "depIds (cleanupDeps example_world) = 1 \<and>
      newDepIds (cleanupDeps example_world) = 0 \<and>
      calls (cleanupDeps example_world) = [RemoveSub (Dep 2), RemoveSub (Dep 1)]"
    by (simp add: example_world_def)
  from b 1 2 show ?thesis by blast
qed

section \<open>Evaluate and track\<close>

lemma addDep_frame:
  "addDep d s = s\<lparr>arrays := arrays (addDep d s), sets := sets (addDep d s),
                   calls := calls (addDep d s)\<rparr>"
  by (simp add: addDep_def Let_def store_defs)

lemma addDep_flags [simp]:
  "deep (addDep d s) = deep s" "user (addDep d s) = user s"
  "lazy (addDep d s) = lazy s" "sync (addDep d s) = sync s"
  "dirty (addDep d s) = dirty s" "active (addDep d s) = active s"
  "value_w (addDep d s) = value_w s" "id_w (addDep d s) = id_w s"
  "targetStack (addDep d s) = targetStack s"
  "vm_watchers (addDep d s) = vm_watchers s"
  "vm_isBeingDestroyed (addDep d s) = vm_isBeingDestroyed s"
  by (subst addDep_frame, simp)+

lemma fold_addDep_frame:
  "fold addDep ds s = s\<lparr>arrays := arrays (fold addDep ds s), sets := sets (fold addDep ds s),
                         calls := calls (fold addDep ds s)\<rparr>"
proof (induction ds rule: rev_induct)
  case Nil
  show ?case by simp
next
  case (snoc d ds)
  show ?case
    by (simp, subst addDep_frame, subst snoc.IH, simp)
qed

lemma fold_addDep_flags [simp]:
  "deep (fold addDep ds s) = deep s" "user (fold addDep ds s) = user s"
  "lazy (fold addDep ds s) = lazy s" "sync (fold addDep ds s) = sync s"
  "dirty (fold addDep ds s) = dirty s" "active (fold addDep ds s) = active s"
  "value_w (fold addDep ds s) = value_w s" "id_w (fold addDep ds s) = id_w s"
  "targetStack (fold addDep ds s) = targetStack s"
  "vm_watchers (fold addDep ds s) = vm_watchers s"
  "vm_isBeingDestroyed (fold addDep ds s) = vm_isBeingDestroyed s"
  by (subst fold_addDep_frame, simp)+

lemma cleanupDeps_flags [simp]:
  "deep (cleanupDeps s) = deep s" "user (cleanupDeps s) = user s"
  "lazy (cleanupDeps s) = lazy s" "sync (cleanupDeps s) = sync s"
  "dirty (cleanupDeps s) = dirty s" "active (cleanupDeps s) = active s"
  "value_w (cleanupDeps s) = value_w s" "id_w (cleanupDeps s) = id_w s"
  "targetStack (cleanupDeps s) = targetStack s"
  "vm_watchers (cleanupDeps s) = vm_watchers s"
  "vm_isBeingDestroyed (cleanupDeps s) = vm_isBeingDestroyed s"
  by (simp_all add: cleanupDeps_eq)

lemma emit_flags [simp]:
  "deep (emit c s) = deep s" "user (emit c s) = user s"
  "lazy (emit c s) = lazy s" "sync (emit c s) = sync s"
  "dirty (emit c s) = dirty s" "active (emit c s) = active s"
  "value_w (emit c s) = value_w s" "id_w (emit c s) = id_w s"
  "targetStack (emit c s) = targetStack s"
  "vm_watchers (emit c s) = vm_watchers s"
  "vm_isBeingDestroyed (emit c s) = vm_isBeingDestroyed s"
  by (simp_all add: emit_def)

lemma pushTarget_fields [simp]:
  "deep (pushTarget s) = deep s" "user (pushTarget s) = user s"
  "lazy (pushTarget s) = lazy s" "sync (pushTarget s) = sync s"
  "dirty (pushTarget s) = dirty s" "active (pushTarget s) = active s"
  "value_w (pushTarget s) = value_w s" "id_w (pushTarget s) = id_w s"
  "vm_watchers (pushTarget s) = vm_watchers s"
  "vm_isBeingDestroyed (pushTarget s) = vm_isBeingDestroyed s"
  "deps (pushTarget s) = deps s" "newDeps (pushTarget s) = newDeps s"
  "depIds (pushTarget s) = depIds s" "newDepIds (pushTarget s) = newDepIds s"
  "arrays (pushTarget s) = arrays s" "sets (pushTarget s) = sets s"
  "calls (pushTarget s) = calls s"
  "targetStack (pushTarget s) = id_w s # targetStack s"
  by (simp_all add: pushTarget_def)

lemma popTarget_fields [simp]:
  "deep (popTarget s) = deep s" "user (popTarget s) = user s"
  "lazy (popTarget s) = lazy s" "sync (popTarget s) = sync s"
  "dirty (popTarget s) = dirty s" "active (popTarget s) = active s"
  "value_w (popTarget s) = value_w s" "id_w (popTarget s) = id_w s"
  "vm_watchers (popTarget s) = vm_watchers s"
  "vm_isBeingDestroyed (popTarget s) = vm_isBeingDestroyed s"
  "deps (popTarget s) = deps s" "newDeps (popTarget s) = newDeps s"
  "depIds (popTarget s) = depIds s" "newDepIds (popTarget s) = newDepIds s"
  "arrays (popTarget s) = arrays s" "sets (popTarget s) = sets s"
  "calls (popTarget s) = calls s"
  "targetStack (popTarget s) = tl (targetStack s)"
  by (simp_all add: popTarget_def)

lemma traverse_Undefined [simp]:
  "traverse_deps ev Undefined = []" "traverse_throw ev Undefined = None"
  by (simp_all add: traverse_deps_def traverse_throw_def isObject_def)

lemma get_finally_flags [simp]:
  "deep (snd (get_finally ev v s)) = deep s" "user (snd (get_finally ev v s)) = user s"
  "lazy (snd (get_finally ev v s)) = lazy s" "sync (snd (get_finally ev v s)) = sync s"
  "dirty (snd (get_finally ev v s)) = dirty s" "active (snd (get_finally ev v s)) = active s"
  "value_w (snd (get_finally ev v s)) = value_w s" "id_w (snd (get_finally ev v s)) = id_w s"
  "vm_watchers (snd (get_finally ev v s)) = vm_watchers s"
  "vm_isBeingDestroyed (snd (get_finally ev v s)) = vm_isBeingDestroyed s"
  by (simp_all add: get_finally_def Let_def split: option.split)

lemma snd_get:
  "snd (get ev s) =
     snd (get_finally ev (value_of ev)
       (case outcome ev of
          Inr v \<Rightarrow> fold addDep (reads ev) (pushTarget s)
        | Inl e \<Rightarrow> if user s then emit (HandleError e) (fold addDep (reads ev) (pushTarget s))
                   else fold addDep (reads ev) (pushTarget s)))"
  by (simp add: get_def Let_def value_of_def split: sum.split prod.split option.split)

lemma get_flags [simp]:
  "deep (snd (get ev s)) = deep s" "user (snd (get ev s)) = user s"
  "lazy (snd (get ev s)) = lazy s" "sync (snd (get ev s)) = sync s"
  "dirty (snd (get ev s)) = dirty s" "active (snd (get ev s)) = active s"
  "value_w (snd (get ev s)) = value_w s" "id_w (snd (get ev s)) = id_w s"
  "vm_watchers (snd (get ev s)) = vm_watchers s"
  "vm_isBeingDestroyed (snd (get ev s)) = vm_isBeingDestroyed s"
  by (simp_all add: snd_get split: sum.split)

lemma fst_get:
  "fst (get ev s) =
     (case outcome ev of
        Inr v \<Rightarrow> (case (if deep s then traverse_throw ev v else None) of
                   Some e' \<Rightarrow> Inl e' | None \<Rightarrow> Inr v)
      | Inl e \<Rightarrow> if user s then Inr Undefined else Inl e)"
  by (simp add: get_def get_finally_def Let_def split: sum.split option.split)






section \<open>Running, updating, evaluating\<close>

lemma run_eq:
  "run ev cb s =
     (if active s then
        (case fst (get ev s) of
           Inl e \<Rightarrow> (Some e, snd (get ev s))
         | Inr v \<Rightarrow>
             if strict_neq v (value_w s) \<or> isObject v \<or> deep s then
               (if user s then None else cb ((snd (get ev s))\<lparr>value_w := v\<rparr>) v (value_w s),
                (snd (get ev s))
                  \<lparr>value_w := v,
                   calls := calls (snd (get ev s)) @ Callback v (value_w s) #
                     (if user s then
                        (case cb ((snd (get ev s))\<lparr>value_w := v\<rparr>) v (value_w s) of
                           Some e \<Rightarrow> [HandleError e] | None \<Rightarrow> [])
                      else [])\<rparr>)
             else (None, snd (get ev s)))
      else (None, s))"
proof (cases "active s")
  case False
  then show ?thesis by (simp add: run_def)
next
  case True
  obtain r s1 where g: "get ev s = (r, s1)" by (cases "get ev s")
  have f: "value_w s1 = value_w s" "deep s1 = deep s" "user s1 = user s"
    using get_flags(7) [of ev s] get_flags(1) [of ev s] get_flags(2) [of ev s] g by simp_all
  show ?thesis
  proof (cases r)
    case (Inl e)
    with True g show ?thesis by (simp add: run_def)
  next
    case (Inr v)
    show ?thesis
    proof (cases "strict_neq v (value_w s) \<or> isObject v \<or> deep s")
      case False
      with True g Inr f show ?thesis by (simp add: run_def)
    next
      case fire: True
      show ?thesis
      proof (cases "cb (s1\<lparr>value_w := v\<rparr>) v (value_w s)")
        case None
        with True g Inr f fire show ?thesis
          by (simp add: run_def Let_def emit_def)
      next
        case (Some e)
        with True g Inr f fire show ?thesis
          by (simp add: run_def Let_def emit_def)
      qed
    qed
  qed
qed


lemma run_flags [simp]:
  "deep (snd (run ev cb s)) = deep s" "user (snd (run ev cb s)) = user s"
  "lazy (snd (run ev cb s)) = lazy s" "sync (snd (run ev cb s)) = sync s"
  "dirty (snd (run ev cb s)) = dirty s" "active (snd (run ev cb s)) = active s"
  "id_w (snd (run ev cb s)) = id_w s"
  by (auto simp: run_eq split: sum.split)

lemma callbacks_append [simp]: "callbacks (xs @ ys) = callbacks xs @ callbacks ys"
  by (induction xs rule: callbacks.induct) simp_all

lemma callbacks_map_AddSub [simp]: "callbacks (map AddSub ds) = []"
  by (induction ds) simp_all

lemma callbacks_map_RemoveSub [simp]: "callbacks (map RemoveSub ds) = []"
  by (induction ds) simp_all

lemma callbacks_addDep [simp]: "callbacks (calls (addDep d s)) = callbacks (calls s)"
  by (simp add: addDep_calls)

lemma callbacks_fold_addDep [simp]:
  "callbacks (calls (fold addDep ds s)) = callbacks (calls s)"
  by (induction ds rule: rev_induct) simp_all

lemma callbacks_cleanupDeps [simp]: "callbacks (calls (cleanupDeps s)) = callbacks (calls s)"
  by (simp add: cleanupDeps_eq)

lemma callbacks_get [simp]: "callbacks (calls (snd (get ev s))) = callbacks (calls s)"
  by (simp add: snd_get get_finally_def Let_def split: sum.split option.split)

lemma callbacks_handled [simp]:
  "callbacks (case r of Some e \<Rightarrow> [HandleError e] | None \<Rightarrow> []) = []"
  by (cases r) simp_all

lemma run_callbacks:
  assumes "active s" "fst (get ev s) = Inr v"
  shows "callbacks (calls (snd (run ev cb s))) =
     callbacks (calls s) @
     (if strict_neq v (value_w s) \<or> isObject v \<or> deep s then [(v, value_w s)] else [])"
  using assms by (simp add: run_eq)

lemma run_inactive: "\<not> active s \<Longrightarrow> run ev cb s = (None, s)"
  by (simp add: run_def)

lemma run_value:
  "active s \<Longrightarrow> fst (get ev s) = Inr v \<Longrightarrow> value_w (snd (run ev cb s)) = v"
  by (auto simp: run_eq strict_neq_def)

text \<open>
  C4, amended. For an active node whose evaluation gives the value \<open>v\<close> (the
  result of \<open>get\<close>, which is \<open>undefined\<close> after a reported error of the getter),
  \<open>run\<close> calls the callback exactly when \<open>v !== value\<close>, or \<open>v\<close> is an object
  or array, or \<open>deep\<close> is set, then once and with \<open>v\<close> and the old \<open>value\<close>;
  afterwards \<open>value\<close> is \<open>v\<close>. When the next evaluation of a node that is not deep
  gives the same \<open>v\<close>, the second \<open>run\<close> calls the callback if \<open>v\<close> is an
  object or array, or is \<open>NaN\<close>, and does not call it for any other primitive
  value.
\<close>

theorem run_fires_iff_changed:
  assumes "active s" and "fst (get ev s) = Inr v"
    and "fst (get ev' (snd (run ev cb s))) = Inr v"
  shows "callbacks (calls (snd (run ev cb s))) =
           callbacks (calls s) @
           (if strict_neq v (value_w s) \<or> isObject v \<or> deep s then [(v, value_w s)] else []) \<and>
         value_w (snd (run ev cb s)) = v \<and>
         (\<not> deep s \<longrightarrow>
            callbacks (calls (snd (run ev' cb' (snd (run ev cb s))))) =
              callbacks (calls (snd (run ev cb s))) @
              (if isObject v \<or> v = NaN then [(v, v)] else []))"
proof -
  note g = assms(2) and g' = assms(3)
  have v: "value_w (snd (run ev cb s)) = v"
    using assms(1) g by (rule run_value)
  have a: "active (snd (run ev cb s))"
    using assms(1) by simp
  note 1 = run_callbacks [OF assms(1) g, of cb]
  have 2: "\<not> deep s \<longrightarrow>
            callbacks (calls (snd (run ev' cb' (snd (run ev cb s))))) =
              callbacks (calls (snd (run ev cb s))) @
              (if isObject v \<or> v = NaN then [(v, v)] else [])"
    using run_callbacks [OF a g', of cb'] v by (auto simp: strict_neq_def)
  from 1 v 2 show ?thesis by blast
qed

theorem run_fires_iff_changed_witness:
  "active example_world \<and>
   fst (get (returning [Dep 1, Dep 2] (Num 5)) example_world) = Inr (Num 5) \<and>
   fst (get (returning [Dep 1, Dep 2] (Num 5))
          (snd (run (returning [Dep 1, Dep 2] (Num 5)) cb_quiet example_world))) = Inr (Num 5) \<and>
   callbacks (calls (snd (run (returning [Dep 1, Dep 2] (Num 5)) cb_quiet example_world))) =
     [(Num 5, Num 1)] \<and>
   callbacks (calls (snd (run (returning [Dep 1, Dep 2] (Num 5)) cb_quiet
     (snd (run (returning [Dep 1, Dep 2] (Num 5)) cb_quiet example_world))))) =
     [(Num 5, Num 1)]"
proof -
  have a: "active example_world" by (simp add: example_world_def)
  have o: "\<And>t. fst (get (returning [Dep 1, Dep 2] (Num 5)) t) = Inr (Num 5)"
    by (simp add: fst_get returning_def traverse_throw_def)
  have f: "\<not> deep example_world" "value_w example_world = Num 1" "calls example_world = []"
    by (simp_all add: example_world_def)
  note r = run_fires_iff_changed [OF a o o, of cb_quiet cb_quiet]
  from r f have 1:
    "callbacks (calls (snd (run (returning [Dep 1, Dep 2] (Num 5)) cb_quiet example_world))) =
       [(Num 5, Num 1)]"
    by (simp add: strict_neq_def isObject_def)
  from r f 1 have 2:
    "callbacks (calls (snd (run (returning [Dep 1, Dep 2] (Num 5)) cb_quiet
       (snd (run (returning [Dep 1, Dep 2] (Num 5)) cb_quiet example_world))))) =
       [(Num 5, Num 1)]"
    by (simp add: isObject_def)
  from a o 1 2 show ?thesis by blast
qed

text \<open>
  The claim as stated fails for \<open>NaN\<close>: a node that is neither lazy nor deep and
  whose getter returns the primitive value \<open>NaN\<close> twice has its callback called by
  the second \<open>run\<close> too.
\<close>

theorem run_same_NaN_fires_again:
  "\<not> isObject NaN \<and> \<not> lazy example_world \<and> \<not> deep example_world \<and>
   active example_world \<and>
   callbacks (calls (snd (run (returning [Dep 1, Dep 2] NaN) cb_quiet example_world))) =
     [(NaN, Num 1)] \<and>
   callbacks (calls (snd (run (returning [Dep 1, Dep 2] NaN) cb_quiet
     (snd (run (returning [Dep 1, Dep 2] NaN) cb_quiet example_world))))) =
     [(NaN, Num 1), (NaN, NaN)]"
proof -
  have a: "active example_world" by (simp add: example_world_def)
  have g: "\<And>t. fst (get (returning [Dep 1, Dep 2] NaN) t) = Inr NaN"
    by (simp add: fst_get returning_def traverse_throw_def)
  have f: "\<not> deep example_world" "\<not> lazy example_world" "value_w example_world = Num 1"
    "calls example_world = []"
    by (simp_all add: example_world_def)
  have a1: "active (snd (run (returning [Dep 1, Dep 2] NaN) cb_quiet example_world))"
    using a by simp
  have v1: "value_w (snd (run (returning [Dep 1, Dep 2] NaN) cb_quiet example_world)) = NaN"
    using a g by (rule run_value)
  have 1:
    "callbacks (calls (snd (run (returning [Dep 1, Dep 2] NaN) cb_quiet example_world))) =
       [(NaN, Num 1)]"
    using run_callbacks [OF a g, of cb_quiet] f by (simp add: strict_neq_def)
  have 2:
    "callbacks (calls (snd (run (returning [Dep 1, Dep 2] NaN) cb_quiet
       (snd (run (returning [Dep 1, Dep 2] NaN) cb_quiet example_world))))) =
       [(NaN, Num 1), (NaN, NaN)]"
    using run_callbacks [OF a1 g, of cb_quiet] 1 v1 by (simp add: strict_neq_def)
  from a f 1 2 show ?thesis by (simp add: isObject_def)
qed

text \<open>
  C5. \<open>update\<close> dispatches on the flags: a lazy node only has \<open>dirty\<close> set; a node
  that is not lazy but sync is run at once; any other node is handed to
  \<open>queueWatcher\<close> and nothing else happens.
\<close>

theorem update_dispatch:
  "(lazy s \<longrightarrow> update ev cb s = (None, s\<lparr>dirty := True\<rparr>)) \<and>
   (\<not> lazy s \<and> sync s \<longrightarrow> update ev cb s = run ev cb s) \<and>
   (\<not> lazy s \<and> \<not> sync s \<longrightarrow>
      update ev cb s = (None, s\<lparr>calls := calls s @ [QueueWatcher]\<rparr>))"
  by (simp add: update_def emit_def)

theorem update_dispatch_witness:
  "lazy (example_world\<lparr>lazy := True\<rparr>) \<and>
   update (returning [] (Num 5)) cb_quiet (example_world\<lparr>lazy := True\<rparr>) =
     (None, example_world\<lparr>lazy := True, dirty := True\<rparr>) \<and>
   \<not> lazy example_world \<and> \<not> sync example_world \<and>
   update (returning [] (Num 5)) cb_quiet example_world =
     (None, example_world\<lparr>calls := [QueueWatcher]\<rparr>) \<and>
   \<not> lazy (example_world\<lparr>sync := True\<rparr>) \<and> sync (example_world\<lparr>sync := True\<rparr>) \<and>
   update (returning [] (Num 5)) cb_quiet (example_world\<lparr>sync := True\<rparr>) =
     run (returning [] (Num 5)) cb_quiet (example_world\<lparr>sync := True\<rparr>)"
  using update_dispatch [of "example_world\<lparr>lazy := True\<rparr>" "returning [] (Num 5)" cb_quiet]
    update_dispatch [of example_world "returning [] (Num 5)" cb_quiet]
    update_dispatch [of "example_world\<lparr>sync := True\<rparr>" "returning [] (Num 5)" cb_quiet]
  by (simp add: example_world_def)

section \<open>Errors of the callback and of the getter\<close>

text \<open>
  C9. When \<open>run\<close> fires, the callback is called in a world whose \<open>value\<close> is already
  the new value: its outcome is that of \<open>cb\<close> on the state after the assignment, so
  two callbacks that agree on every world holding the new value give the same run.
  Whatever the callback does, \<open>value\<close> is the new value afterwards; with \<open>user\<close>
  set a throw of the callback is handed to \<open>handleError\<close> after the call and
  \<open>run\<close> returns normally.
\<close>

theorem run_stores_before_callback:
  assumes "active s" and "fst (get ev s) = Inr v"
    and "strict_neq v (value_w s) \<or> isObject v \<or> deep s"
  shows "fst (run ev cb s) =
           (if user s then None else cb ((snd (get ev s))\<lparr>value_w := v\<rparr>) v (value_w s)) \<and>
         value_w ((snd (get ev s))\<lparr>value_w := v\<rparr>) = v \<and>
         value_w (snd (run ev cb s)) = v \<and>
         ((\<forall>w. value_w w = v \<longrightarrow> cb' w = cb w) \<longrightarrow> run ev cb' s = run ev cb s) \<and>
         (user s \<longrightarrow>
            (\<forall>e. cb ((snd (get ev s))\<lparr>value_w := v\<rparr>) v (value_w s) = Some e \<longrightarrow>
               fst (run ev cb s) = None \<and> value_w (snd (run ev cb s)) = v \<and>
               calls (snd (run ev cb s)) =
                 calls (snd (get ev s)) @ [Callback v (value_w s), HandleError e]))"
proof -
  have 1: "fst (run ev cb s) =
           (if user s then None else cb ((snd (get ev s))\<lparr>value_w := v\<rparr>) v (value_w s))"
    using assms by (simp add: run_eq)
  have 2: "value_w (snd (run ev cb s)) = v"
    using assms(1,2) by (rule run_value)
  have 3: "(\<forall>w. value_w w = v \<longrightarrow> cb' w = cb w) \<longrightarrow> run ev cb' s = run ev cb s"
  proof
    assume "\<forall>w. value_w w = v \<longrightarrow> cb' w = cb w"
    then have "cb' ((snd (get ev s))\<lparr>value_w := v\<rparr>) = cb ((snd (get ev s))\<lparr>value_w := v\<rparr>)"
      by simp
    then show "run ev cb' s = run ev cb s"
      using assms by (simp add: run_eq)
  qed
  have 4: "user s \<longrightarrow>
            (\<forall>e. cb ((snd (get ev s))\<lparr>value_w := v\<rparr>) v (value_w s) = Some e \<longrightarrow>
               fst (run ev cb s) = None \<and> value_w (snd (run ev cb s)) = v \<and>
               calls (snd (run ev cb s)) =
                 calls (snd (get ev s)) @ [Callback v (value_w s), HandleError e])"
    using assms by (simp add: run_eq)
  from 1 2 3 4 show ?thesis by simp
qed

theorem run_stores_before_callback_witness:
  "active (example_world\<lparr>user := True\<rparr>) \<and>
   fst (get (returning [Dep 1, Dep 2] (Num 5)) (example_world\<lparr>user := True\<rparr>)) = Inr (Num 5) \<and>
   strict_neq (Num 5) (value_w (example_world\<lparr>user := True\<rparr>)) \<and>
   fst (run (returning [Dep 1, Dep 2] (Num 5)) cb_failing (example_world\<lparr>user := True\<rparr>)) = None \<and>
   value_w (snd (run (returning [Dep 1, Dep 2] (Num 5)) cb_failing
     (example_world\<lparr>user := True\<rparr>))) = Num 5 \<and>
   calls (snd (run (returning [Dep 1, Dep 2] (Num 5)) cb_failing
     (example_world\<lparr>user := True\<rparr>))) =
     calls (snd (get (returning [Dep 1, Dep 2] (Num 5)) (example_world\<lparr>user := True\<rparr>))) @
     [Callback (Num 5) (Num 1), HandleError (Thrown (Str ''callback failed''))]"
proof -
  have a: "active (example_world\<lparr>user := True\<rparr>)" by (simp add: example_world_def)
  have g: "fst (get (returning [Dep 1, Dep 2] (Num 5)) (example_world\<lparr>user := True\<rparr>)) =
             Inr (Num 5)"
    by (simp add: fst_get returning_def traverse_throw_def)
  have f: "user (example_world\<lparr>user := True\<rparr>)"
    "value_w (example_world\<lparr>user := True\<rparr>) = Num 1"
    by (simp_all add: example_world_def)
  have n: "strict_neq (Num 5) (value_w (example_world\<lparr>user := True\<rparr>)) \<or> isObject (Num 5) \<or>
           deep (example_world\<lparr>user := True\<rparr>)"
    using f by (simp add: strict_neq_def)
  note r = run_stores_before_callback [OF a g n, of cb_failing cb_failing]
  from r a g f show ?thesis
    by (simp add: cb_failing_def strict_neq_def)
qed

lemma evaluate_eq:
  "evaluate ev s =
     (case fst (get ev s) of
        Inl e \<Rightarrow> (Some e, snd (get ev s))
      | Inr v \<Rightarrow> (None, (snd (get ev s))\<lparr>value_w := v, dirty := False\<rparr>))"
  by (cases "get ev s") (simp add: evaluate_def split: sum.split)

text \<open>
  C10. When the getter throws during \<open>evaluate\<close>: without \<open>user\<close> the throw is the
  result of \<open>evaluate\<close> and neither assignment is made, \<open>value\<close> and \<open>dirty\<close> are
  as before (a stale node stays stale); with \<open>user\<close>, \<open>evaluate\<close> completes,
  \<open>value\<close> is \<open>undefined\<close> and \<open>dirty\<close> is false.
\<close>

theorem evaluate_when_getter_throws:
  assumes "outcome ev = Inl e"
  shows "(\<not> user s \<longrightarrow>
            fst (evaluate ev s) = Some e \<and> value_w (snd (evaluate ev s)) = value_w s \<and>
            dirty (snd (evaluate ev s)) = dirty s) \<and>
         (user s \<longrightarrow>
            fst (evaluate ev s) = None \<and> value_w (snd (evaluate ev s)) = Undefined \<and>
            dirty (snd (evaluate ev s)) = False)"
  using assms by (simp add: evaluate_eq fst_get)

theorem evaluate_when_getter_throws_witness:
  "outcome (throwing [Dep 1] (Thrown (Str ''getter failed''))) = Inl (Thrown (Str ''getter failed'')) \<and>
   \<not> user (example_world\<lparr>lazy := True, dirty := True\<rparr>) \<and>
   fst (evaluate (throwing [Dep 1] (Thrown (Str ''getter failed'')))
          (example_world\<lparr>lazy := True, dirty := True\<rparr>)) = Some (Thrown (Str ''getter failed'')) \<and>
   value_w (snd (evaluate (throwing [Dep 1] (Thrown (Str ''getter failed'')))
          (example_world\<lparr>lazy := True, dirty := True\<rparr>))) = Num 1 \<and>
   dirty (snd (evaluate (throwing [Dep 1] (Thrown (Str ''getter failed'')))
          (example_world\<lparr>lazy := True, dirty := True\<rparr>))) \<and>
   user (example_world\<lparr>lazy := True, dirty := True, user := True\<rparr>) \<and>
   fst (evaluate (throwing [Dep 1] (Thrown (Str ''getter failed'')))
          (example_world\<lparr>lazy := True, dirty := True, user := True\<rparr>)) = None \<and>
   value_w (snd (evaluate (throwing [Dep 1] (Thrown (Str ''getter failed'')))
          (example_world\<lparr>lazy := True, dirty := True, user := True\<rparr>))) = Undefined \<and>
   \<not> dirty (snd (evaluate (throwing [Dep 1] (Thrown (Str ''getter failed'')))
          (example_world\<lparr>lazy := True, dirty := True, user := True\<rparr>)))"
proof -
  have o: "outcome (throwing [Dep 1] (Thrown (Str ''getter failed''))) =
             Inl (Thrown (Str ''getter failed''))"
    by (simp add: throwing_def)
  have f: "\<not> user (example_world\<lparr>lazy := True, dirty := True\<rparr>)"
    "value_w (example_world\<lparr>lazy := True, dirty := True\<rparr>) = Num 1"
    "dirty (example_world\<lparr>lazy := True, dirty := True\<rparr>)"
    "user (example_world\<lparr>lazy := True, dirty := True, user := True\<rparr>)"
    by (simp_all add: example_world_def)
  from o f evaluate_when_getter_throws [OF o, of "example_world\<lparr>lazy := True, dirty := True\<rparr>"]
    evaluate_when_getter_throws [OF o, of "example_world\<lparr>lazy := True, dirty := True, user := True\<rparr>"]
  show ?thesis by simp
qed

section \<open>Teardown\<close>

lemma teardownLoop_eq:
  "n \<le> length (arrays s (deps s)) \<Longrightarrow>
   teardownLoop n s =
     s\<lparr>calls := calls s @ map RemoveSub (rev (take n (arrays s (deps s))))\<rparr>"
proof (induction n arbitrary: s)
  case 0
  show ?case by simp
next
  case (Suc n)
  then have n: "n < length (arrays s (deps s))" by simp
  show ?case
    using Suc.IH [of "emit (RemoveSub (arrays s (deps s) ! n)) s"] n
    by (simp add: take_Suc_conv_app_nth emit_def)
qed

lemma dependLoop_eq:
  "n \<le> length (arrays s (deps s)) \<Longrightarrow>
   dependLoop n s =
     s\<lparr>calls := calls s @ map Depend (rev (take n (arrays s (deps s))))\<rparr>"
proof (induction n arbitrary: s)
  case 0
  show ?case by simp
next
  case (Suc n)
  then have n: "n < length (arrays s (deps s))" by simp
  show ?case
    using Suc.IH [of "emit (Depend (arrays s (deps s) ! n)) s"] n
    by (simp add: take_Suc_conv_app_nth emit_def)
qed

lemma depend_eq:
  "depend s = s\<lparr>calls := calls s @ map Depend (rev (arrays s (deps s)))\<rparr>"
  by (simp add: depend_def dependLoop_eq)

lemma teardown_eq:
  "teardown s =
     (if active s then
        s\<lparr>vm_watchers := (if vm_isBeingDestroyed s then vm_watchers s
                           else remove (vm_watchers s) (id_w s)),
          calls := calls s @ map RemoveSub (rev (arrays s (deps s))),
          active := False\<rparr>
      else s)"
  by (simp add: teardown_def Let_def teardownLoop_eq)

lemma teardown_inactive [simp]: "\<not> active (teardown s)"
  by (simp add: teardown_eq)

lemma teardown_noop: "\<not> active s \<Longrightarrow> teardown s = s"
  by (simp add: teardown_def)

lemma callbacks_map_Depend [simp]: "callbacks (map Depend ds) = []"
  by (induction ds) simp_all

lemma update_active [simp]: "active (snd (update ev cb s)) = active s"
  by (simp add: update_def emit_def)

lemma evaluate_active [simp]: "active (snd (evaluate ev s)) = active s"
  by (simp add: evaluate_eq split: sum.split)

lemma evaluate_callbacks [simp]:
  "callbacks (calls (snd (evaluate ev s))) = callbacks (calls s)"
  by (simp add: evaluate_eq split: sum.split)

lemma perform_inactive: "\<not> active s \<Longrightarrow> \<not> active (perform m s)"
  by (cases m) (simp_all add: depend_eq teardown_noop)

lemma perform_no_callback:
  "\<not> active s \<Longrightarrow> callbacks (calls (perform m s)) = callbacks (calls s)"
  by (cases m) (simp_all add: depend_eq teardown_noop run_inactive update_def emit_def)

lemma fold_perform_inactive:
  "\<not> active s \<Longrightarrow>
   \<not> active (fold perform ms s) \<and>
   callbacks (calls (fold perform ms s)) = callbacks (calls s)"
  by (induction ms arbitrary: s) (simp_all add: perform_inactive perform_no_callback)

text \<open>
  C6, amended. \<open>teardown\<close> is idempotent. The first \<open>teardown\<close> of an active node
  calls \<open>removeSub\<close> on every publisher of its list \<open>deps\<close> and leaves \<open>active\<close>
  false; \<open>active\<close> stays false under every later sequence of method calls, none of
  which calls the change callback; \<open>run\<close> and \<open>teardown\<close> are no-ops from then
  on, and so is \<open>update\<close> on a node that is sync and not lazy.
\<close>

theorem teardown_final:
  "teardown (teardown s) = teardown s \<and>
   \<not> active (teardown s) \<and>
   (active s \<longrightarrow> calls (teardown s) = calls s @ map RemoveSub (rev (arrays s (deps s)))) \<and>
   \<not> active (fold perform ms (teardown s)) \<and>
   callbacks (calls (fold perform ms (teardown s))) = callbacks (calls (teardown s)) \<and>
   run ev cb (fold perform ms (teardown s)) = (None, fold perform ms (teardown s)) \<and>
   teardown (fold perform ms (teardown s)) = fold perform ms (teardown s) \<and>
   (sync s \<and> \<not> lazy s \<longrightarrow> update ev cb (teardown s) = (None, teardown s))"
proof -
  have i: "\<not> active (teardown s)" by simp
  note f = fold_perform_inactive [OF i, of ms]
  have 1: "teardown (teardown s) = teardown s"
    using i by (rule teardown_noop)
  have 2: "active s \<longrightarrow> calls (teardown s) = calls s @ map RemoveSub (rev (arrays s (deps s)))"
    by (simp add: teardown_eq)
  have 3: "run ev cb (fold perform ms (teardown s)) = (None, fold perform ms (teardown s))"
    using f by (simp add: run_inactive)
  have 4: "teardown (fold perform ms (teardown s)) = fold perform ms (teardown s)"
    using f by (simp add: teardown_noop)
  have 5: "sync s \<and> \<not> lazy s \<longrightarrow> update ev cb (teardown s) = (None, teardown s)"
    by (simp add: update_def run_inactive) (simp add: teardown_eq)
  from 1 i 2 f 3 4 5 show ?thesis by blast
qed

theorem teardown_final_witness:
  "active example_world \<and>
   calls (teardown example_world) = [RemoveSub (Dep 2), RemoveSub (Dep 1)] \<and>
   \<not> active (fold perform [M_update (returning [Dep 3] (Num 5)) cb_quiet,
                            M_evaluate (returning [Dep 3] (Num 5)),
                            M_run (returning [Dep 3] (Num 6)) cb_quiet] (teardown example_world)) \<and>
   callbacks (calls (fold perform [M_update (returning [Dep 3] (Num 5)) cb_quiet,
                            M_evaluate (returning [Dep 3] (Num 5)),
                            M_run (returning [Dep 3] (Num 6)) cb_quiet] (teardown example_world))) = []"
proof -
  have a: "active example_world" and c: "calls example_world = []"
    and d: "arrays example_world (deps example_world) = [Dep 1, Dep 2]"
    by (simp_all add: example_world_def)
  note r = teardown_final [of example_world "[M_update (returning [Dep 3] (Num 5)) cb_quiet,
                            M_evaluate (returning [Dep 3] (Num 5)),
                            M_run (returning [Dep 3] (Num 6)) cb_quiet]"]
  from r a c d have 1: "calls (teardown example_world) = [RemoveSub (Dep 2), RemoveSub (Dep 1)]"
    by simp
  from r a 1 show ?thesis by simp
qed

text \<open>
  Not every operation is a no-op after \<open>teardown\<close>: \<open>evaluate\<close> still evaluates,
  stores the value and subscribes the node to a publisher it finds; \<open>update\<close> still
  marks a lazy node dirty and still hands any other node that is not sync to
  \<open>queueWatcher\<close>.
\<close>

theorem operations_after_teardown_not_noops:
  "\<not> active (teardown example_world) \<and>
   value_w (snd (evaluate (returning [Dep 3] (Num 5)) (teardown example_world))) = Num 5 \<and>
   value_w (teardown example_world) = Num 1 \<and>
   calls (snd (evaluate (returning [Dep 3] (Num 5)) (teardown example_world))) =
     calls (teardown example_world) @
     [AddSub (Dep 3), RemoveSub (Dep 2), RemoveSub (Dep 1)] \<and>
   calls (snd (update (returning [Dep 3] (Num 5)) cb_quiet (teardown example_world))) =
     calls (teardown example_world) @ [QueueWatcher] \<and>
   dirty (snd (update (returning [Dep 3] (Num 5)) cb_quiet
     (teardown (example_world\<lparr>lazy := True\<rparr>)))) \<and>
   \<not> dirty (teardown (example_world\<lparr>lazy := True\<rparr>))"
  by (simp add: evaluate_eq fst_get update_def emit_def)
     (simp add: returning_def get_def get_finally_def Let_def cleanupDeps_eq
        addDep_calls addDep_sets addDep_arrays teardown_eq example_world_def)

section \<open>The deep traversal: termination and the visited set\<close>

lemma entered_append [simp]: "entered (xs @ ys) = entered xs @ entered ys"
  by (induction xs rule: entered.induct) simp_all

lemma extends_refl [simp]: "extends st st"
  by (auto simp: extends_def intro: exI [of _ "[]"])

lemma extends_trans: "extends s1 s2 \<Longrightarrow> extends s2 s3 \<Longrightarrow> extends s1 s3"
proof -
  assume "extends s1 s2" and "extends s2 s3"
  then obtain es fs where
    e: "tlog s2 = tlog s1 @ es" "seen s2 = seen s1 \<union> set (entered es)"
       "distinct (entered es)" "set (entered es) \<inter> seen s1 = {}"
    and f: "tlog s3 = tlog s2 @ fs" "seen s3 = seen s2 \<union> set (entered fs)"
       "distinct (entered fs)" "set (entered fs) \<inter> seen s2 = {}"
    by (auto simp: extends_def)
  have "tlog s3 = tlog s1 @ (es @ fs)" using e f by simp
  moreover have "seen s3 = seen s1 \<union> set (entered (es @ fs))" using e f by auto
  moreover have "distinct (entered (es @ fs))" using e f by auto
  moreover have "set (entered (es @ fs)) \<inter> seen s1 = {}" using e f by auto
  ultimately show "extends s1 s3" unfolding extends_def by blast
qed

lemma extends_Read [simp]: "extends st (logged (Read a k) st)"
  by (auto simp: extends_def logged_def intro: exI [of _ "[Read a k]"])

lemma extends_Enter:
  "d \<notin> seen st \<Longrightarrow> extends st (logged (Enter d) (st\<lparr>seen := insert d (seen st)\<rparr>))"
  by (auto simp: extends_def logged_def intro: exI [of _ "[Enter d]"])

lemma extends_seen: "extends st st' \<Longrightarrow> seen st \<subseteq> seen st'"
  by (auto simp: extends_def)

lemma loop_extends:
  assumes "\<And>v s s'. f v s = Some s' \<Longrightarrow> extends s s'"
  shows "traverse_loop f a kvs i st = Some st' \<Longrightarrow> extends st st'"
proof (induction i arbitrary: st)
  case 0
  then show ?case by simp
next
  case (Suc i)
  then obtain s1 where 1: "f (snd (kvs ! i)) (logged (Read a (fst (kvs ! i))) st) = Some s1"
    and 2: "traverse_loop f a kvs i s1 = Some st'"
    by (auto split: option.splits)
  have "extends st (logged (Read a (fst (kvs ! i))) st)" by simp
  moreover have "extends (logged (Read a (fst (kvs ! i))) st) s1" using 1 by (rule assms)
  moreover have "extends s1 st'" using 2 by (rule Suc.IH)
  ultimately show ?case by (blast intro: extends_trans)
qed

lemma traverse'_leaf: "leaf h v \<Longrightarrow> traverse' (Suc n) h v st = Some st"
  by (auto simp: leaf_def split: jsval.splits option.splits)

lemma traverse'_seen:
  "h a = Some ob \<Longrightarrow> ob_dep ob = Some d \<Longrightarrow> d \<in> seen st \<Longrightarrow>
   traverse' (Suc n) h (Ref a) st = Some st"
  by simp

lemma traverse'_enter:
  "h a = Some ob \<Longrightarrow> \<not> frozen ob \<Longrightarrow> \<not> vnode ob \<Longrightarrow> ob_dep ob = Some d \<Longrightarrow> d \<notin> seen st \<Longrightarrow>
   traverse' (Suc n) h (Ref a) st =
     traverse_loop (traverse' n h) a (entries (shape ob)) (length (entries (shape ob)))
       (logged (Enter d) (st\<lparr>seen := insert d (seen st)\<rparr>))"
  by simp

lemma traverse'_plain:
  "h a = Some ob \<Longrightarrow> \<not> frozen ob \<Longrightarrow> \<not> vnode ob \<Longrightarrow> ob_dep ob = None \<Longrightarrow>
   traverse' (Suc n) h (Ref a) st =
     traverse_loop (traverse' n h) a (entries (shape ob)) (length (entries (shape ob))) st"
  by simp

lemma traverse_cases:
  fixes h :: heap and v :: jsval and st :: tstate
  obtains (leaf) "leaf h v"
  | (seen) a ob d where "v = Ref a" "h a = Some ob" "\<not> frozen ob" "\<not> vnode ob"
      "ob_dep ob = Some d" "d \<in> seen st"
  | (enter) a ob d where "v = Ref a" "h a = Some ob" "\<not> frozen ob" "\<not> vnode ob"
      "ob_dep ob = Some d" "d \<notin> seen st"
  | (plain) a ob where "v = Ref a" "h a = Some ob" "\<not> frozen ob" "\<not> vnode ob"
      "ob_dep ob = None"
proof (cases "leaf h v")
  case True
  then show ?thesis by (rule leaf)
next
  case False
  then obtain a ob where v: "v = Ref a" "h a = Some ob" "\<not> frozen ob" "\<not> vnode ob"
    by (auto simp: leaf_def split: jsval.splits option.splits)
  show ?thesis
  proof (cases "ob_dep ob")
    case None
    with v show ?thesis by (rule plain)
  next
    case (Some d)
    with v show ?thesis by (cases "d \<in> seen st") (auto intro: seen enter)
  qed
qed

lemma traverse'_extends: "traverse' n h v st = Some st' \<Longrightarrow> extends st st'"
proof (induction n arbitrary: v st st')
  case 0
  then show ?case by simp
next
  case (Suc n)
  have f: "\<And>v s s'. traverse' n h v s = Some s' \<Longrightarrow> extends s s'"
    by (rule Suc.IH)
  show ?case
  proof (cases rule: traverse_cases [where h = h and v = v and st = st])
    case leaf
    with Suc.prems show ?thesis by (simp only: traverse'_leaf) simp
  next
    case (seen a ob d)
    with Suc.prems show ?thesis by simp
  next
    case (enter a ob d)
    with Suc.prems have "traverse_loop (traverse' n h) a (entries (shape ob))
       (length (entries (shape ob))) (logged (Enter d) (st\<lparr>seen := insert d (seen st)\<rparr>)) = Some st'"
      by simp
    then have "extends (logged (Enter d) (st\<lparr>seen := insert d (seen st)\<rparr>)) st'"
      using f by (rule loop_extends [where f = "traverse' n h", rotated])
    with extends_Enter [OF enter(6)] show ?thesis by (rule extends_trans)
  next
    case (plain a ob)
    with Suc.prems have "traverse_loop (traverse' n h) a (entries (shape ob))
       (length (entries (shape ob))) st = Some st'"
      by simp
    then show ?thesis using f by (rule loop_extends [where f = "traverse' n h", rotated])
  qed
qed

lemma loop_mono:
  assumes "\<And>v s s'. f v s = Some s' \<Longrightarrow> g v s = Some s'"
  shows "traverse_loop f a kvs i st = Some st' \<Longrightarrow> traverse_loop g a kvs i st = Some st'"
proof (induction i arbitrary: st)
  case 0
  then show ?case by simp
next
  case (Suc i)
  then obtain s1 where 1: "f (snd (kvs ! i)) (logged (Read a (fst (kvs ! i))) st) = Some s1"
    and 2: "traverse_loop f a kvs i s1 = Some st'"
    by (auto split: option.splits)
  from 1 have "g (snd (kvs ! i)) (logged (Read a (fst (kvs ! i))) st) = Some s1" by (rule assms)
  with Suc.IH [OF 2] show ?case by simp
qed

lemma traverse'_Suc: "traverse' n h v st = Some st' \<Longrightarrow> traverse' (Suc n) h v st = Some st'"
proof (induction n arbitrary: v st st')
  case 0
  then show ?case by simp
next
  case (Suc n)
  have f: "\<And>v s s'. traverse' n h v s = Some s' \<Longrightarrow> traverse' (Suc n) h v s = Some s'"
    by (rule Suc.IH)
  show ?case
  proof (cases rule: traverse_cases [where h = h and v = v and st = st])
    case leaf
    then show ?thesis using Suc.prems by (simp only: traverse'_leaf)
  next
    case (seen a ob d)
    then show ?thesis using Suc.prems by (simp only: traverse'_seen)
  next
    case (enter a ob d)
    have e: "\<And>k. traverse' (Suc k) h (Ref a) st =
        traverse_loop (traverse' k h) a (entries (shape ob)) (length (entries (shape ob)))
          (logged (Enter d) (st\<lparr>seen := insert d (seen st)\<rparr>))"
      using enter by simp
    from Suc.prems have "traverse_loop (traverse' n h) a (entries (shape ob))
       (length (entries (shape ob))) (logged (Enter d) (st\<lparr>seen := insert d (seen st)\<rparr>)) = Some st'"
      unfolding enter(1) e .
    then have "traverse_loop (traverse' (Suc n) h) a (entries (shape ob))
       (length (entries (shape ob))) (logged (Enter d) (st\<lparr>seen := insert d (seen st)\<rparr>)) = Some st'"
      using f by (rule loop_mono [where f = "traverse' n h" and g = "traverse' (Suc n) h", rotated])
    then show ?thesis unfolding enter(1) e .
  next
    case (plain a ob)
    have e: "\<And>k. traverse' (Suc k) h (Ref a) st =
        traverse_loop (traverse' k h) a (entries (shape ob)) (length (entries (shape ob))) st"
      using plain by simp
    from Suc.prems have "traverse_loop (traverse' n h) a (entries (shape ob))
       (length (entries (shape ob))) st = Some st'"
      unfolding plain(1) e .
    then have "traverse_loop (traverse' (Suc n) h) a (entries (shape ob))
       (length (entries (shape ob))) st = Some st'"
      using f by (rule loop_mono [where f = "traverse' n h" and g = "traverse' (Suc n) h", rotated])
    then show ?thesis unfolding plain(1) e .
  qed
qed

lemma traverse'_mono:
  "traverse' n h v st = Some st' \<Longrightarrow> n \<le> m \<Longrightarrow> traverse' m h v st = Some st'"
proof (induction m)
  case 0
  then show ?case by simp
next
  case (Suc m)
  show ?case
  proof (cases "n = Suc m")
    case True
    with Suc.prems show ?thesis by simp
  next
    case False
    with Suc.prems have "n \<le> m" by simp
    with Suc have "traverse' m h v st = Some st'" by blast
    then show ?thesis by (rule traverse'_Suc)
  qed
qed

lemma traverse'_unique:
  "traverse' n h v st = Some r \<Longrightarrow> traverse' m h v st = Some r' \<Longrightarrow> r = r'"
  using traverse'_mono [of n h v st r "max n m"] traverse'_mono [of m h v st r' "max n m"]
  by simp

lemma logged_seen [simp]: "seen (logged e st) = seen st"
  by (simp add: logged_def)

lemma logged_tlog [simp]: "tlog (logged e st) = tlog st @ [e]"
  by (simp add: logged_def)

lemma loop_terminates:
  assumes "\<And>j s1. j < i \<Longrightarrow> extends st s1 \<Longrightarrow>
             \<exists>n s2. traverse' n h (snd (kvs ! j)) (logged (Read a (fst (kvs ! j))) s1) = Some s2"
  shows "\<exists>n st'. traverse_loop (traverse' n h) a kvs i st = Some st'"
  using assms
proof (induction i arbitrary: st)
  case 0
  show ?case by simp
next
  case (Suc i)
  obtain n1 s2 where 1:
    "traverse' n1 h (snd (kvs ! i)) (logged (Read a (fst (kvs ! i))) st) = Some s2"
    using Suc.prems [of i st] by auto
  have e: "extends st s2"
    using extends_Read traverse'_extends [OF 1] by (rule extends_trans)
  have "\<exists>n st'. traverse_loop (traverse' n h) a kvs i s2 = Some st'"
  proof (rule Suc.IH)
    fix j s1
    assume j: "j < i" and "extends s2 s1"
    with e have "extends st s1" by (blast intro: extends_trans)
    with j show "\<exists>n s2. traverse' n h (snd (kvs ! j)) (logged (Read a (fst (kvs ! j))) s1) = Some s2"
      using Suc.prems [of j s1] by simp
  qed
  then obtain n2 st' where 2: "traverse_loop (traverse' n2 h) a kvs i s2 = Some st'"
    by blast
  have b1: "traverse' (max n1 n2) h (snd (kvs ! i)) (logged (Read a (fst (kvs ! i))) st) = Some s2"
    using 1 by (rule traverse'_mono) simp
  have m: "\<And>v s s'. traverse' n2 h v s = Some s' \<Longrightarrow> traverse' (max n1 n2) h v s = Some s'"
    by (erule traverse'_mono) simp
  have b2: "traverse_loop (traverse' (max n1 n2) h) a kvs i s2 = Some st'"
    using 2 m by (rule loop_mono [where f = "traverse' n2 h" and g = "traverse' (max n1 n2) h", rotated])
  from b1 b2 have "traverse_loop (traverse' (max n1 n2) h) a kvs (Suc i) st = Some st'"
    by simp
  then show ?case by blast
qed

lemma traverse'_Ref_terminates:
  assumes w: "wf (plain_edges h)" and fin: "finite (dep_ids h)"
  shows "\<exists>n st'. traverse' n h (Ref a) st = Some st'"
proof -
  have wfl: "wf (finite_psubset <*lex*> plain_edges h)"
    using w by (intro wf_lex_prod) simp_all
  have "\<forall>st. dep_ids h - seen st = fst p \<longrightarrow>
          (\<exists>n st'. traverse' n h (Ref (snd p)) st = Some st')" for p
    using wfl
  proof (induction p rule: wf_induct_rule)
    case (less p)
    show ?case
    proof (intro allI impI)
      fix st :: tstate
      assume D: "dep_ids h - seen st = fst p"
      have child: "\<exists>n s2. traverse' n h c s1 = Some s2"
        if small: "\<And>b. c = Ref b \<Longrightarrow>
             ((dep_ids h - seen s1, b), p) \<in> finite_psubset <*lex*> plain_edges h"
        for c s1
      proof (cases c)
        case (Ref b)
        from small [OF Ref] less.IH [of "(dep_ids h - seen s1, b)"] Ref
        show ?thesis by simp
      qed (auto intro: exI [of _ "Suc 0"])
      show "\<exists>n st'. traverse' n h (Ref (snd p)) st = Some st'"
      proof (cases rule: traverse_cases [where h = h and v = "Ref (snd p)" and st = st])
        case leaf
        then have "traverse' (Suc 0) h (Ref (snd p)) st = Some st" by (rule traverse'_leaf)
        then show ?thesis by blast
      next
        case (seen a ob d)
        then have "traverse' (Suc 0) h (Ref (snd p)) st = Some st" by simp
        then show ?thesis by blast
      next
        case (enter a ob d)
        let ?st0 = "logged (Enter d) (st\<lparr>seen := insert d (seen st)\<rparr>)"
        let ?kvs = "entries (shape ob)"
        have din: "d \<in> dep_ids h"
          using enter by (auto simp: dep_ids_def)
        have "\<exists>n st'. traverse_loop (traverse' n h) a ?kvs (length ?kvs) ?st0 = Some st'"
        proof (rule loop_terminates)
          fix j s1
          assume "j < length ?kvs" and "extends ?st0 s1"
          then have "insert d (seen st) \<subseteq> seen s1"
            using extends_seen [of ?st0 s1] by simp
          then have "dep_ids h - seen (logged (Read a (fst (?kvs ! j))) s1) \<subset> dep_ids h - seen st"
            using din enter(6) by auto
          then have lt: "dep_ids h - seen (logged (Read a (fst (?kvs ! j))) s1) \<subset> fst p"
            using D by simp
          show "\<exists>n s2. traverse' n h (snd (?kvs ! j)) (logged (Read a (fst (?kvs ! j))) s1) = Some s2"
          proof (rule child)
            fix b
            have "finite (fst p)" using fin unfolding D [symmetric] by simp
            with lt show "((dep_ids h - seen (logged (Read a (fst (?kvs ! j))) s1), b), p)
                \<in> finite_psubset <*lex*> plain_edges h"
              by (cases p) (simp add: finite_psubset_def)
          qed
        qed
        then obtain n st' where "traverse_loop (traverse' n h) a ?kvs (length ?kvs) ?st0 = Some st'"
          by blast
        with enter have "traverse' (Suc n) h (Ref (snd p)) st = Some st'" by simp
        then show ?thesis by blast
      next
        case (plain a ob)
        let ?kvs = "entries (shape ob)"
        have "\<exists>n st'. traverse_loop (traverse' n h) a ?kvs (length ?kvs) st = Some st'"
        proof (rule loop_terminates)
          fix j s1
          assume j: "j < length ?kvs" and "extends st s1"
          then have sub: "dep_ids h - seen (logged (Read a (fst (?kvs ! j))) s1) \<subseteq> dep_ids h - seen st"
            using extends_seen [of st s1] by auto
          have edge: "(b, snd p) \<in> plain_edges h" if "snd (?kvs ! j) = Ref b" for b
          proof -
            have "Ref b \<in> snd ` set ?kvs"
              using that j by (metis image_eqI nth_mem)
            with plain show ?thesis by (auto simp: plain_edges_def)
          qed
          show "\<exists>n s2. traverse' n h (snd (?kvs ! j)) (logged (Read a (fst (?kvs ! j))) s1) = Some s2"
          proof (rule child)
            fix b
            assume "snd (?kvs ! j) = Ref b"
            then have "(b, snd p) \<in> plain_edges h" by (rule edge)
            moreover have "finite (fst p)" using fin unfolding D [symmetric] by simp
            ultimately show "((dep_ids h - seen (logged (Read a (fst (?kvs ! j))) s1), b), p)
                \<in> finite_psubset <*lex*> plain_edges h"
              using sub D by (cases p) (auto simp: finite_psubset_def)
          qed
        qed
        then obtain n st' where "traverse_loop (traverse' n h) a ?kvs (length ?kvs) st = Some st'"
          by blast
        with plain have "traverse' (Suc n) h (Ref (snd p)) st = Some st'" by simp
        then show ?thesis by blast
      qed
    qed
  qed
  from this [of "(dep_ids h - seen st, a)"] show ?thesis by simp
qed

lemma finite_Ref_vimage: "finite S \<Longrightarrow> finite {c. Ref c \<in> S}"
proof -
  assume "finite S"
  then have "finite (Ref -` S)" by (rule finite_vimageI) (simp add: inj_on_def)
  then show ?thesis by (simp add: vimage_def)
qed

lemma finite_dep_ids: "finite (dom h) \<Longrightarrow> finite (dep_ids h)"
proof -
  assume f: "finite (dom h)"
  have "dep_ids h \<subseteq> (\<lambda>a. the (ob_dep (the (h a)))) ` dom h"
    by (force simp: dep_ids_def)
  with f show ?thesis by (blast intro: finite_subset)
qed

lemma finite_held_edges: "finite (dom h) \<Longrightarrow> finite (held_edges h)"
proof -
  assume f: "finite (dom h)"
  have "held_edges h \<subseteq>
          (\<Union>p\<in>dom h. {c. Ref c \<in> snd ` set (entries (shape (the (h p))))} \<times> {p})"
    by (force simp: held_edges_def)
  moreover have "finite (\<Union>p\<in>dom h. {c. Ref c \<in> snd ` set (entries (shape (the (h p))))} \<times> {p})"
    using f by (intro finite_UN_I finite_cartesian_product finite_Ref_vimage) simp_all
  ultimately show ?thesis by (rule finite_subset)
qed

lemma plain_edges_held: "plain_edges h \<subseteq> held_edges h"
  by (auto simp: plain_edges_def held_edges_def)

lemma traverse'_terminates:
  assumes "finite (dom h)" and "acyclic (plain_edges h)"
  shows "\<exists>n st'. traverse' n h v st = Some st'"
proof (cases v)
  case (Ref a)
  have "finite (plain_edges h)"
    using finite_held_edges [OF assms(1)] plain_edges_held by (rule rev_finite_subset)
  then have "wf (plain_edges h)" using assms(2) by (rule finite_acyclic_wf)
  then show ?thesis
    unfolding Ref using finite_dep_ids [OF assms(1)] by (rule traverse'_Ref_terminates)
qed (auto intro: exI [of _ "Suc 0"])

text \<open>Only the objects of the value matter to its traversal.\<close>

lemma loop_cong:
  assumes "\<And>j s. j < i \<Longrightarrow> f (snd (kvs ! j)) s = g (snd (kvs ! j)) s"
  shows "traverse_loop f a kvs i st = traverse_loop g a kvs i st"
  using assms by (induction i arbitrary: st) (simp_all split: option.split)

lemma reach_self: "a \<in> reach h (Ref a)"
  by (simp add: reach_def)

lemma reach_child:
  assumes "p \<in> reach h v" and "h p = Some ob" and "\<not> frozen ob" and "\<not> vnode ob"
    and "Ref c \<in> snd ` set (entries (shape ob))"
  shows "c \<in> reach h v"
proof -
  from assms(2-5) have "(c, p) \<in> held_edges h" by (auto simp: held_edges_def)
  with assms(1) show ?thesis
    by (auto simp: reach_def split: jsval.splits intro: converse_rtrancl_into_rtrancl)
qed

lemma traverse'_restrict:
  assumes "\<And>a. v = Ref a \<Longrightarrow> a \<in> reach h v0"
  shows "traverse' n (h |` reach h v0) v st = traverse' n h v st"
  using assms
proof (induction n arbitrary: v st)
  case 0
  show ?case by simp
next
  case (Suc n)
  show ?case
  proof (cases v)
    case (Ref a)
    then have a: "a \<in> reach h v0" by (rule Suc.prems)
    show ?thesis
    proof (cases "h a")
      case None
      with Ref a show ?thesis by simp
    next
      case (Some ob)
      have l: "traverse_loop (traverse' n (h |` reach h v0)) a (entries (shape ob))
                 (length (entries (shape ob))) s =
               traverse_loop (traverse' n h) a (entries (shape ob))
                 (length (entries (shape ob))) s"
        if "\<not> frozen ob" "\<not> vnode ob" for s
      proof (rule loop_cong)
        fix j s'
        assume j: "j < length (entries (shape ob))"
        show "traverse' n (h |` reach h v0) (snd (entries (shape ob) ! j)) s' =
              traverse' n h (snd (entries (shape ob) ! j)) s'"
        proof (rule Suc.IH)
          fix c
          assume "snd (entries (shape ob) ! j) = Ref c"
          then have "Ref c \<in> snd ` set (entries (shape ob))"
            using j by (metis image_eqI nth_mem)
          with a Some that show "c \<in> reach h v0" by (rule reach_child)
        qed
      qed
      from Ref a Some l show ?thesis
        by (simp split: option.split)
    qed
  qed simp_all
qed

lemma finite_reach: "finite (dom h) \<Longrightarrow> finite (reach h v)"
proof (cases v)
  case (Ref a)
  assume "finite (dom h)"
  then have "finite (Domain (held_edges h))"
    by (intro finite_Domain finite_held_edges)
  moreover have "reach h v \<subseteq> insert a (Domain (held_edges h))"
    unfolding Ref reach_def by (auto elim: converse_rtranclE)
  ultimately show ?thesis by (simp add: finite_subset)
qed (simp_all add: reach_def)

lemma plain_edges_restrict:
  "plain_edges (h |` reach h v) \<subseteq> plain_edges h \<inter> reach h v \<times> reach h v"
proof
  fix e
  assume "e \<in> plain_edges (h |` reach h v)"
  then obtain c p ob where e: "e = (c, p)" and p: "p \<in> reach h v" "h p = Some ob"
    and ob: "\<not> frozen ob" "\<not> vnode ob" "ob_dep ob = None"
    and c: "Ref c \<in> snd ` set (entries (shape ob))"
    by (auto simp: plain_edges_def restrict_map_def split: if_splits)
  from p ob(1,2) c have "c \<in> reach h v" by (rule reach_child)
  moreover from p ob c have "(c, p) \<in> plain_edges h" by (auto simp: plain_edges_def)
  ultimately show "e \<in> plain_edges h \<inter> reach h v \<times> reach h v"
    using e p by simp
qed

lemma traverse'_terminates_reach:
  assumes "finite (reach h v)" and "acyclic (plain_edges h \<inter> reach h v \<times> reach h v)"
  shows "\<exists>n st'. traverse' n h v st = Some st'"
proof -
  have "finite (dom (h |` reach h v))" using assms(1) by simp
  moreover have "acyclic (plain_edges (h |` reach h v))"
    using assms(2) plain_edges_restrict by (rule acyclic_subset)
  ultimately obtain n st' where "traverse' n (h |` reach h v) v st = Some st'"
    using traverse'_terminates by blast
  moreover have "traverse' n (h |` reach h v) v st = traverse' n h v st"
    by (rule traverse'_restrict) (simp add: reach_self)
  ultimately show ?thesis by auto
qed

subsection \<open>No property is read twice\<close>

lemma read_slots_append [simp]: "read_slots (xs @ ys) = read_slots xs @ read_slots ys"
  by (induction xs rule: read_slots.induct) simp_all

lemma set_read_slots [simp]: "(a, k) \<in> set (read_slots es) \<longleftrightarrow> Read a k \<in> set es"
  by (induction es rule: read_slots.induct) auto

lemma fresh_logged_Read: "fresh (logged (Read p k) st) a \<longleftrightarrow> a \<noteq> p \<and> fresh st a"
  by (auto simp: fresh_def)

lemma fresh_mono: "extends s s' \<Longrightarrow> fresh s' a \<Longrightarrow> fresh s a"
  by (auto simp: fresh_def extends_def)

lemma extends_log_subset: "extends s s' \<Longrightarrow> set (tlog s) \<subseteq> set (tlog s')"
  by (auto simp: extends_def)

lemma well_logged_Enter:
  "well_logged h v st \<Longrightarrow> well_logged h v (logged (Enter d) (st\<lparr>seen := insert d (seen st)\<rparr>))"
  by (auto simp: well_logged_def logged_def)

lemma well_logged_Read:
  assumes w: "well_logged h v st"
    and ob: "h p = Some ob"
    and nr: "Read p k \<notin> set (tlog st)"
    and jd: "\<And>d. ob_dep ob = Some d \<Longrightarrow> d \<in> seen st"
    and jp: "plain h p \<Longrightarrow> v = Ref p \<or> (\<exists>q m. holds_at h q m p \<and> Read q m \<in> set (tlog st))"
  shows "well_logged h v (logged (Read p k) st)"
proof -
  have 1: "distinct (read_slots (tlog (logged (Read p k) st)))"
    using w nr by (simp add: well_logged_def)
  have 2: "\<forall>a k' ob' d. Read a k' \<in> set (tlog (logged (Read p k) st)) \<and> h a = Some ob' \<and>
             ob_dep ob' = Some d \<longrightarrow> d \<in> seen (logged (Read p k) st)"
    using w ob jd by (auto simp: well_logged_def)
  have 3: "\<forall>x k'. Read x k' \<in> set (tlog (logged (Read p k) st)) \<and> plain h x \<longrightarrow>
             v = Ref x \<or> (\<exists>q m. holds_at h q m x \<and> Read q m \<in> set (tlog (logged (Read p k) st)))"
  proof (intro allI impI)
    fix x k'
    assume a: "Read x k' \<in> set (tlog (logged (Read p k) st)) \<and> plain h x"
    show "v = Ref x \<or> (\<exists>q m. holds_at h q m x \<and> Read q m \<in> set (tlog (logged (Read p k) st)))"
    proof (cases "Read x k' \<in> set (tlog st)")
      case True
      with a w have "v = Ref x \<or> (\<exists>q m. holds_at h q m x \<and> Read q m \<in> set (tlog st))"
        unfolding well_logged_def by blast
      then show ?thesis by auto
    next
      case False
      with a have "x = p" by simp
      with a jp show ?thesis by auto
    qed
  qed
  from 1 2 3 show ?thesis unfolding well_logged_def by blast
qed


lemma loop_well_logged:
  assumes F: "\<forall>c s s'. f c s = Some s' \<and> well_logged h v s \<and> arrived h v c s \<longrightarrow>
                well_logged h v s' \<and> extends s s' \<and>
                (\<forall>a k. Read a k \<in> set (tlog s') \<longrightarrow> Read a k \<in> set (tlog s) \<or> fresh s a)"
    and U: "\<forall>x. plain h x \<longrightarrow>
              (\<forall>p q k m. holds_at h p k x \<and> holds_at h q m x \<longrightarrow> p = q \<and> k = m) \<and>
              (v = Ref x \<longrightarrow> (\<forall>p k. \<not> holds_at h p k x))"
    and irr: "\<forall>p k. \<not> (plain h p \<and> holds_at h p k p)"
    and ob: "h p = Some ob" "\<not> frozen ob" "\<not> vnode ob"
    and kd: "distinct (map fst (entries (shape ob)))"
  shows "i \<le> length (entries (shape ob)) \<Longrightarrow>
         traverse_loop f p (entries (shape ob)) i st = Some st' \<Longrightarrow>
         well_logged h v st \<Longrightarrow>
         \<forall>j<i. Read p (fst (entries (shape ob) ! j)) \<notin> set (tlog st) \<Longrightarrow>
         \<forall>d. ob_dep ob = Some d \<longrightarrow> d \<in> seen st \<Longrightarrow>
         plain h p \<longrightarrow> v = Ref p \<or> (\<exists>q m. holds_at h q m p \<and> Read q m \<in> set (tlog st)) \<Longrightarrow>
         well_logged h v st' \<and> extends st st' \<and>
         (\<forall>a k. Read a k \<in> set (tlog st') \<longrightarrow> Read a k \<in> set (tlog st) \<or> a = p \<or> fresh st a)"
proof (induction i arbitrary: st)
  case 0
  then show ?case by simp
next
  case (Suc i)
  let ?kvs = "entries (shape ob)"
  let ?k = "fst (?kvs ! i)"
  let ?c = "snd (?kvs ! i)"
  let ?st1 = "logged (Read p ?k) st"
  have i: "i < length ?kvs" using Suc.prems(1) by simp
  from Suc.prems(2) obtain s2 where 1: "f ?c ?st1 = Some s2"
    and 2: "traverse_loop f p ?kvs i s2 = Some st'"
    by (auto split: option.splits)
  have nr: "Read p ?k \<notin> set (tlog st)" using Suc.prems(4) by simp
  have w1: "well_logged h v ?st1"
    using Suc.prems(3) ob(1) nr Suc.prems(5,6) by (intro well_logged_Read) auto
  have mem: "(?k, ?c) \<in> set ?kvs" using i by (metis nth_mem prod.collapse)
  have ar: "arrived h v ?c ?st1"
    unfolding arrived_def
  proof (intro allI impI)
    fix x
    assume a: "?c = Ref x \<and> plain h x"
    have hp: "holds_at h p ?k x"
      using a mem ob by (auto simp: holds_at_def)
    have xp: "x \<noteq> p" using irr a hp by blast
    have "fresh ?st1 x"
      unfolding fresh_def
    proof (intro allI notI)
      fix k'
      assume "Read x k' \<in> set (tlog ?st1)"
      with xp have r: "Read x k' \<in> set (tlog st)" by simp
      with Suc.prems(3) a have "v = Ref x \<or> (\<exists>q m. holds_at h q m x \<and> Read q m \<in> set (tlog st))"
        unfolding well_logged_def by blast
      then show False
      proof
        assume "v = Ref x"
        with U a hp show False by blast
      next
        assume "\<exists>q m. holds_at h q m x \<and> Read q m \<in> set (tlog st)"
        then obtain q m where q: "holds_at h q m x" "Read q m \<in> set (tlog st)" by blast
        with U a hp have "q = p \<and> m = ?k" by blast
        with q nr show False by simp
      qed
    qed
    moreover have "holds_at h p ?k x \<and> Read p ?k \<in> set (tlog ?st1)"
      using hp by simp
    ultimately show "fresh ?st1 x \<and>
        (v = Ref x \<or> (\<exists>q m. holds_at h q m x \<and> Read q m \<in> set (tlog ?st1)))"
      by blast
  qed
  from F 1 w1 ar have w2: "well_logged h v s2" and e2: "extends ?st1 s2"
    and fr2: "\<forall>a k. Read a k \<in> set (tlog s2) \<longrightarrow> Read a k \<in> set (tlog ?st1) \<or> fresh ?st1 a"
    by blast+
  have e1: "extends st s2"
    using extends_Read e2 by (rule extends_trans)
  have np: "\<not> fresh ?st1 p" by (auto simp: fresh_def)
  have unread2: "\<forall>j<i. Read p (fst (?kvs ! j)) \<notin> set (tlog s2)"
  proof (intro allI impI notI)
    fix j
    assume j: "j < i" and r: "Read p (fst (?kvs ! j)) \<in> set (tlog s2)"
    with fr2 np have "Read p (fst (?kvs ! j)) \<in> set (tlog ?st1)" by blast
    moreover have "Read p (fst (?kvs ! j)) \<notin> set (tlog st)"
      using Suc.prems(4) j by simp
    ultimately have "fst (?kvs ! j) = ?k" by simp
    then have "map fst ?kvs ! j = map fst ?kvs ! i" using i j by simp
    moreover have "j < length (map fst ?kvs)" "i < length (map fst ?kvs)" using i j by simp_all
    ultimately have "j = i" using kd by (simp only: nth_eq_iff_index_eq)
    with j show False by simp
  qed
  have jd2: "\<forall>d. ob_dep ob = Some d \<longrightarrow> d \<in> seen s2"
    using Suc.prems(5) extends_seen [OF e1] by blast
  have jp2: "plain h p \<longrightarrow> v = Ref p \<or> (\<exists>q m. holds_at h q m p \<and> Read q m \<in> set (tlog s2))"
    using Suc.prems(6) extends_log_subset [OF e1] by blast
  have il: "i \<le> length ?kvs" using i by simp
  from Suc.IH [OF il 2 w2 unread2 jd2 jp2]
  have w': "well_logged h v st'" and e': "extends s2 st'"
    and fr': "\<forall>a k. Read a k \<in> set (tlog st') \<longrightarrow> Read a k \<in> set (tlog s2) \<or> a = p \<or> fresh s2 a"
    by blast+
  have "extends st st'" using e1 e' by (rule extends_trans)
  moreover have "\<forall>a k. Read a k \<in> set (tlog st') \<longrightarrow>
      Read a k \<in> set (tlog st) \<or> a = p \<or> fresh st a"
  proof (intro allI impI)
    fix a k
    assume "Read a k \<in> set (tlog st')"
    with fr' consider "Read a k \<in> set (tlog s2)" | "a = p" | "fresh s2 a" by blast
    then show "Read a k \<in> set (tlog st) \<or> a = p \<or> fresh st a"
    proof cases
      case 1
      with fr2 have "Read a k \<in> set (tlog ?st1) \<or> fresh ?st1 a" by blast
      then show ?thesis by (auto simp: fresh_logged_Read)
    next
      case 2
      then show ?thesis by simp
    next
      case 3
      then show ?thesis using fresh_mono [OF e1] by blast
    qed
  qed
  ultimately show ?case using w' by blast
qed

lemma traverse'_well_logged:
  assumes U: "\<forall>x. plain h x \<longrightarrow>
              (\<forall>p q k m. holds_at h p k x \<and> holds_at h q m x \<longrightarrow> p = q \<and> k = m) \<and>
              (v = Ref x \<longrightarrow> (\<forall>p k. \<not> holds_at h p k x))"
    and irr: "\<forall>p k. \<not> (plain h p \<and> holds_at h p k p)"
    and K: "\<forall>a ob. h a = Some ob \<longrightarrow> distinct (map fst (entries (shape ob)))"
  shows "traverse' n h c st = Some st' \<Longrightarrow> well_logged h v st \<Longrightarrow> arrived h v c st \<Longrightarrow>
         well_logged h v st' \<and>
         (\<forall>a k. Read a k \<in> set (tlog st') \<longrightarrow> Read a k \<in> set (tlog st) \<or> fresh st a)"
proof (induction n arbitrary: c st st')
  case 0
  then show ?case by simp
next
  case (Suc n)
  have F: "\<forall>c s s'. traverse' n h c s = Some s' \<and> well_logged h v s \<and> arrived h v c s \<longrightarrow>
             well_logged h v s' \<and> extends s s' \<and>
             (\<forall>a k. Read a k \<in> set (tlog s') \<longrightarrow> Read a k \<in> set (tlog s) \<or> fresh s a)"
    using Suc.IH traverse'_extends by blast
  show ?case
  proof (cases rule: traverse_cases [where h = h and v = c and st = st])
    case leaf
    then have "traverse' (Suc n) h c st = Some st" by (rule traverse'_leaf)
    with Suc.prems show ?thesis by simp
  next
    case (seen p ob d)
    with Suc.prems show ?thesis by simp
  next
    case (enter p ob d)
    let ?st0 = "logged (Enter d) (st\<lparr>seen := insert d (seen st)\<rparr>)"
    let ?kvs = "entries (shape ob)"
    from Suc.prems(1) enter have l: "traverse_loop (traverse' n h) p ?kvs (length ?kvs) ?st0 = Some st'"
      by simp
    have w0: "well_logged h v ?st0" using Suc.prems(2) by (rule well_logged_Enter)
    have fp: "fresh st p"
      using Suc.prems(2) enter(2,5,6) unfolding well_logged_def fresh_def by blast
    then have unread: "\<forall>j<length ?kvs. Read p (fst (?kvs ! j)) \<notin> set (tlog ?st0)"
      by (simp add: fresh_def)
    have jd: "\<forall>d'. ob_dep ob = Some d' \<longrightarrow> d' \<in> seen ?st0" using enter(5) by simp
    have np: "\<not> plain h p" using enter(2,5) by (simp add: plain_def)
    then have jp: "plain h p \<longrightarrow> v = Ref p \<or> (\<exists>q m. holds_at h q m p \<and> Read q m \<in> set (tlog ?st0))"
      by simp
    have kd: "distinct (map fst ?kvs)" using K enter(2) by blast
    from loop_well_logged [where f = "traverse' n h", OF F U irr enter(2,3,4) kd le_refl l w0 unread jd jp]
    have w': "well_logged h v st'"
      and fr: "\<forall>a k. Read a k \<in> set (tlog st') \<longrightarrow> Read a k \<in> set (tlog ?st0) \<or> a = p \<or> fresh ?st0 a"
      by blast+
    have "\<forall>a k. Read a k \<in> set (tlog st') \<longrightarrow> Read a k \<in> set (tlog st) \<or> fresh st a"
      using fr fp by (auto simp: fresh_def)
    with w' show ?thesis by blast
  next
    case (plain p ob)
    let ?kvs = "entries (shape ob)"
    from Suc.prems(1) plain have l: "traverse_loop (traverse' n h) p ?kvs (length ?kvs) st = Some st'"
      by simp
    have pl: "plain h p" using plain by (simp add: plain_def)
    with Suc.prems(3) plain(1) have fp: "fresh st p"
      and jp: "plain h p \<longrightarrow> v = Ref p \<or> (\<exists>q m. holds_at h q m p \<and> Read q m \<in> set (tlog st))"
      unfolding arrived_def by blast+
    from fp have unread: "\<forall>j<length ?kvs. Read p (fst (?kvs ! j)) \<notin> set (tlog st)"
      by (simp add: fresh_def)
    have jd: "\<forall>d'. ob_dep ob = Some d' \<longrightarrow> d' \<in> seen st" using plain(5) by simp
    have kd: "distinct (map fst ?kvs)" using K plain(2) by blast
    from loop_well_logged [where f = "traverse' n h", OF F U irr plain(2,3,4) kd le_refl l
        Suc.prems(2) unread jd jp]
    have w': "well_logged h v st'"
      and fr: "\<forall>a k. Read a k \<in> set (tlog st') \<longrightarrow> Read a k \<in> set (tlog st) \<or> a = p \<or> fresh st a"
      by blast+
    have "\<forall>a k. Read a k \<in> set (tlog st') \<longrightarrow> Read a k \<in> set (tlog st) \<or> fresh st a"
      using fr fp by blast
    with w' show ?thesis by blast
  qed
qed

text \<open>On the objects of a value that satisfies the two conditions, no property is read twice.\<close>

lemma distinct_keys_entries:
  "(\<forall>ps. sh = Object ps \<longrightarrow> distinct (map fst ps)) \<Longrightarrow> distinct (map fst (entries sh))"
  by (cases sh) (simp_all add: entries_def comp_def distinct_map inj_on_def)

lemma plain_restrict: "plain (h |` R) x \<longleftrightarrow> x \<in> R \<and> plain h x"
  by (auto simp: plain_def restrict_map_def)

lemma holds_at_restrict: "holds_at (h |` R) p k x \<longleftrightarrow> p \<in> R \<and> holds_at h p k x"
  by (auto simp: holds_at_def restrict_map_def)

lemma holds_at_reach: "p \<in> reach h v \<Longrightarrow> holds_at h p k x \<Longrightarrow> x \<in> reach h v"
  unfolding holds_at_def by (metis reach_child image_eqI snd_conv)

lemma traverse_reads_once:
  assumes ac: "acyclic (plain_edges h \<inter> reach h v \<times> reach h v)"
    and kd: "keys_distinct h v" and so: "sharing_observed h v"
    and t: "traverse' n h v \<lparr>seen = S, tlog = []\<rparr> = Some st'"
  shows "distinct (read_slots (tlog st'))"
proof -
  let ?g = "h |` reach h v"
  have U: "\<forall>x. plain ?g x \<longrightarrow>
              (\<forall>p q k m. holds_at ?g p k x \<and> holds_at ?g q m x \<longrightarrow> p = q \<and> k = m) \<and>
              (v = Ref x \<longrightarrow> (\<forall>p k. \<not> holds_at ?g p k x))"
    using so unfolding sharing_observed_def plain_restrict holds_at_restrict by blast
  have "acyclic (plain_edges ?g)"
    using ac plain_edges_restrict by (rule acyclic_subset)
  then have "\<forall>p. (p, p) \<notin> plain_edges ?g"
    by (auto simp: acyclic_def)
  moreover have "(p, p) \<in> plain_edges ?g" if "plain ?g p" "holds_at ?g p k p" for p k
    using that unfolding plain_def holds_at_def plain_edges_def by force
  ultimately have irr: "\<forall>p k. \<not> (plain ?g p \<and> holds_at ?g p k p)" by blast
  have K: "\<forall>a ob. ?g a = Some ob \<longrightarrow> distinct (map fst (entries (shape ob)))"
  proof (intro allI impI)
    fix a ob
    assume "?g a = Some ob"
    then have "a \<in> reach h v" "h a = Some ob" by (auto simp: restrict_map_def split: if_splits)
    with kd have "\<forall>ps. shape ob = Object ps \<longrightarrow> distinct (map fst ps)"
      unfolding keys_distinct_def by blast
    then show "distinct (map fst (entries (shape ob)))" by (rule distinct_keys_entries)
  qed
  have "traverse' n ?g v \<lparr>seen = S, tlog = []\<rparr> = traverse' n h v \<lparr>seen = S, tlog = []\<rparr>"
    by (rule traverse'_restrict) (simp add: reach_self)
  with t have t': "traverse' n ?g v \<lparr>seen = S, tlog = []\<rparr> = Some st'" by simp
  have w0: "well_logged ?g v \<lparr>seen = S, tlog = []\<rparr>" by (simp add: well_logged_def)
  have a0: "arrived ?g v v \<lparr>seen = S, tlog = []\<rparr>" by (simp add: arrived_def fresh_def)
  from traverse'_well_logged [OF U irr K t' w0 a0] show ?thesis
    by (simp add: well_logged_def)
qed

text \<open>
  C7. For a value whose objects are finitely many and among which every cycle passes
  through an object with an observer (or a frozen object or \<open>VNode\<close>), the
  top-level \<open>traverse\<close> returns: some depth \<open>n\<close> of recursion suffices, every larger
  one gives the same result and no smaller one gives another. The dep ids entered
  during the call are pairwise different and were not in the visited set before, and
  the visited set handed back is empty. When moreover every shared substructure of
  the value passes through an object with an observer (and the own keys of an object
  are pairwise different), no property is read twice during the call: every object,
  and with it the subtree of every dep id, is expanded at most once, and no getter
  is fired a second time.
\<close>

theorem traverse_terminates_once:
  assumes "finite (reach h v)" and "acyclic (plain_edges h \<inter> reach h v \<times> reach h v)"
  shows "\<exists>n es. traverse n h v S = Some ({}, es) \<and>
           (\<forall>m. n \<le> m \<longrightarrow> traverse m h v S = Some ({}, es)) \<and>
           (\<forall>m r. traverse m h v S = Some r \<longrightarrow> r = ({}, es)) \<and>
           distinct (entered es) \<and> set (entered es) \<inter> S = {} \<and>
           (keys_distinct h v \<and> sharing_observed h v \<longrightarrow> distinct (read_slots es))"
proof -
  let ?st = "\<lparr>seen = S, tlog = []\<rparr>"
  obtain n st' where t: "traverse' n h v ?st = Some st'"
    using traverse'_terminates_reach [OF assms] by blast
  from traverse'_extends [OF t] have d: "distinct (entered (tlog st'))"
    and i: "set (entered (tlog st')) \<inter> S = {}"
    by (auto simp: extends_def)
  have 1: "traverse n h v S = Some ({}, tlog st')"
    using t by (simp add: traverse_def)
  have 2: "\<forall>m. n \<le> m \<longrightarrow> traverse m h v S = Some ({}, tlog st')"
    using traverse'_mono [OF t] by (simp add: traverse_def)
  have 3: "\<forall>m r. traverse m h v S = Some r \<longrightarrow> r = ({}, tlog st')"
    using traverse'_unique [OF t] by (auto simp: traverse_def split: option.splits)
  have 4: "keys_distinct h v \<and> sharing_observed h v \<longrightarrow> distinct (read_slots (tlog st'))"
    using traverse_reads_once [OF assms(2) _ _ t] by blast
  from 1 2 3 d i 4 show ?thesis by blast
qed

lemma example_heap_plain_edges: "plain_edges example_heap \<subseteq> {(0, 1)}"
  by (auto simp: plain_edges_def example_heap_def entries_def split: if_splits)

lemma example_heap_keys: "keys_distinct example_heap (Ref 0)"
  by (auto simp: keys_distinct_def example_heap_def split: if_splits)

lemma example_heap_sharing: "sharing_observed example_heap (Ref 0)"
  by (auto simp: sharing_observed_def plain_def holds_at_def example_heap_def entries_def
        own_prop_def split: if_splits)

theorem traverse_terminates_once_witness:
  "finite (reach example_heap (Ref 0)) \<and>
   acyclic (plain_edges example_heap \<inter> reach example_heap (Ref 0) \<times> reach example_heap (Ref 0)) \<and>
   keys_distinct example_heap (Ref 0) \<and> sharing_observed example_heap (Ref 0) \<and>
   (\<exists>n. traverse n example_heap (Ref 0) {} =
      Some ({}, [Enter 10, Read 0 (Name ''list''), Read 1 (Index 1), Read 1 (Index 0),
                 Read 0 (Name ''self'')])) \<and>
   distinct (read_slots [Enter 10, Read 0 (Name ''list''), Read 1 (Index 1), Read 1 (Index 0),
                 Read 0 (Name ''self'')])"
proof -
  let ?es = "[Enter 10, Read 0 (Name ''list''), Read 1 (Index 1), Read 1 (Index 0),
              Read 0 (Name ''self'')]"
  have f: "finite (reach example_heap (Ref 0))"
    by (rule finite_reach) (simp add: example_heap_def)
  have "acyclic ({} :: (nat \<times> nat) set)" by (simp add: acyclic_def)
  then have "acyclic {(0::nat, 1::nat)}" by (simp add: acyclic_insert)
  then have a: "acyclic (plain_edges example_heap \<inter>
      reach example_heap (Ref 0) \<times> reach example_heap (Ref 0))"
    using example_heap_plain_edges by (blast intro: acyclic_subset)
  note k = example_heap_keys and s = example_heap_sharing
  have c: "traverse 3 example_heap (Ref 0) {} = Some ({}, ?es)"
    by (simp add: traverse_def example_heap_def entries_def own_prop_def logged_def
          numeral_3_eq_3)
  from traverse_terminates_once [OF f a, of "{}"] k s obtain n es where
    t: "traverse n example_heap (Ref 0) {} = Some ({}, es)" and
    u: "\<forall>m r. traverse m example_heap (Ref 0) {} = Some r \<longrightarrow> r = ({}, es)" and
    d: "distinct (read_slots es)"
    by blast
  from u c have e: "es = ?es" by blast
  with t have "\<exists>n. traverse n example_heap (Ref 0) {} = Some ({}, ?es)" by blast
  with f a k s d e show ?thesis by blast
qed

section \<open>The deep traversal: leaves and children\<close>

lemma extends_log: "extends s s' \<Longrightarrow> e \<in> set (tlog s) \<Longrightarrow> e \<in> set (tlog s')"
  by (auto simp: extends_def)

lemma loop_visits:
  assumes f0: "\<forall>v s s'. f v s = Some s' \<longrightarrow> extends s s'"
    and l: "traverse_loop f a kvs i st = Some st'"
    and j: "j < i"
  shows "\<exists>s1 s2. extends st s1 \<and>
           f (snd (kvs ! j)) (logged (Read a (fst (kvs ! j))) s1) = Some s2 \<and> extends s2 st'"
  using l j
proof (induction i arbitrary: st)
  case 0
  then show ?case by simp
next
  case (Suc i)
  have f: "\<And>v s s'. f v s = Some s' \<Longrightarrow> extends s s'"
    using f0 by blast
  from Suc.prems obtain s2 where 1: "f (snd (kvs ! i)) (logged (Read a (fst (kvs ! i))) st) = Some s2"
    and 2: "traverse_loop f a kvs i s2 = Some st'"
    by (auto split: option.splits)
  have e2: "extends s2 st'"
    using 2 f by (rule loop_extends [where f = f, rotated])
  show ?case
  proof (cases "j = i")
    case True
    with 1 e2 show ?thesis by (blast intro: extends_refl)
  next
    case False
    with Suc.prems have "j < i" by simp
    with Suc.IH [OF 2] obtain t1 t2 where t: "extends s2 t1"
      "f (snd (kvs ! j)) (logged (Read a (fst (kvs ! j))) t1) = Some t2" "extends t2 st'"
      by blast
    have "extends st s2"
      using extends_Read f [OF 1] by (rule extends_trans)
    then have "extends st t1" using t(1) by (rule extends_trans)
    with t show ?thesis by blast
  qed
qed

lemma traverse'_visits:
  assumes t: "traverse' n h (Ref a) st = Some st'"
    and ob: "h a = Some ob" "\<not> frozen ob" "\<not> vnode ob" "\<And>d. ob_dep ob = Some d \<Longrightarrow> d \<notin> seen st"
    and j: "j < length (entries (shape ob))"
  shows "Read a (fst (entries (shape ob) ! j)) \<in> set (tlog st') \<and>
         (\<exists>s1 s2. extends st s1 \<and>
            traverse' n h (snd (entries (shape ob) ! j))
              (logged (Read a (fst (entries (shape ob) ! j))) s1) = Some s2 \<and>
            extends s2 st')"
proof -
  let ?kvs = "entries (shape ob)"
  obtain m where n: "n = Suc m" using t by (cases n) simp_all
  have f: "\<forall>v s s'. traverse' m h v s = Some s' \<longrightarrow> extends s s'"
    by (blast intro: traverse'_extends)
  obtain st0 where e0: "extends st st0"
    and l: "traverse_loop (traverse' m h) a ?kvs (length ?kvs) st0 = Some st'"
  proof (cases "ob_dep ob")
    case None
    with t ob n have "traverse_loop (traverse' m h) a ?kvs (length ?kvs) st = Some st'"
      by simp
    with that [of st] show ?thesis by simp
  next
    case (Some d)
    with ob(4) have d: "d \<notin> seen st" by simp
    with t ob n Some have "traverse_loop (traverse' m h) a ?kvs (length ?kvs)
        (logged (Enter d) (st\<lparr>seen := insert d (seen st)\<rparr>)) = Some st'"
      by simp
    with that extends_Enter [OF d] show ?thesis by blast
  qed
  from loop_visits [where f = "traverse' m h", OF f l j]
  obtain s1 s2 where s: "extends st0 s1"
    "traverse' m h (snd (?kvs ! j)) (logged (Read a (fst (?kvs ! j))) s1) = Some s2"
    "extends s2 st'"
    by blast
  have 1: "extends st s1" using e0 s(1) by (rule extends_trans)
  have 2: "traverse' n h (snd (?kvs ! j)) (logged (Read a (fst (?kvs ! j))) s1) = Some s2"
    unfolding n using s(2) by (rule traverse'_Suc)
  have "Read a (fst (?kvs ! j)) \<in> set (tlog (logged (Read a (fst (?kvs ! j))) s1))"
    by simp
  then have "Read a (fst (?kvs ! j)) \<in> set (tlog s2)"
    using traverse'_extends [OF s(2)] by (blast intro: extends_log)
  then have 3: "Read a (fst (?kvs ! j)) \<in> set (tlog st')"
    using s(3) by (blast intro: extends_log)
  from 1 2 3 s(3) show ?thesis by blast
qed


lemma entries_Array:
  "length (entries (Array vs)) = length vs"
  "j < length vs \<Longrightarrow> entries (Array vs) ! j = (Index j, vs ! j)"
  by (simp_all add: entries_def)

lemma entries_Object:
  "length (entries (Object ps)) = length ps"
  "j < length ps \<Longrightarrow> entries (Object ps) ! j = (Name (fst (ps ! j)), own_prop ps (fst (ps ! j)))"
  by (simp_all add: entries_def)

lemma traverse'_children:
  assumes "traverse' n h v st = Some st'"
  shows "(leaf h v \<longrightarrow> st' = st) \<and>
         (\<forall>a ob d. v = Ref a \<and> h a = Some ob \<and> ob_dep ob = Some d \<and> d \<in> seen st \<longrightarrow>
            st' = st) \<and>
         (\<forall>a ob. v = Ref a \<and> h a = Some ob \<and> \<not> frozen ob \<and> \<not> vnode ob \<and>
                 (\<forall>d. ob_dep ob = Some d \<longrightarrow> d \<notin> seen st) \<longrightarrow>
            (\<forall>vs. shape ob = Array vs \<longrightarrow>
               (\<forall>j<length vs.
                  Read a (Index j) \<in> set (tlog st') \<and>
                  (\<exists>s1 s2. extends st s1 \<and>
                     traverse' n h (vs ! j) (logged (Read a (Index j)) s1) = Some s2 \<and>
                     extends s2 st'))) \<and>
            (\<forall>ps. shape ob = Object ps \<longrightarrow>
               (\<forall>k\<in>fst ` set ps.
                  Read a (Name k) \<in> set (tlog st') \<and>
                  (\<exists>s1 s2. extends st s1 \<and>
                     traverse' n h (own_prop ps k) (logged (Read a (Name k)) s1) = Some s2 \<and>
                     extends s2 st'))))"
proof -
  obtain m where n: "n = Suc m" using assms by (cases n) simp_all
  have 1: "leaf h v \<longrightarrow> st' = st"
  proof
    assume "leaf h v"
    then have "traverse' (Suc m) h v st = Some st" by (rule traverse'_leaf)
    with assms show "st' = st" unfolding n by simp
  qed
  have 2: "\<forall>a ob d. v = Ref a \<and> h a = Some ob \<and> ob_dep ob = Some d \<and> d \<in> seen st \<longrightarrow>
            st' = st"
  proof (intro allI impI)
    fix a ob d
    assume "v = Ref a \<and> h a = Some ob \<and> ob_dep ob = Some d \<and> d \<in> seen st"
    then have "traverse' (Suc m) h v st = Some st" by simp
    with assms show "st' = st" unfolding n by simp
  qed
  have 3: "(\<forall>vs. shape ob = Array vs \<longrightarrow>
               (\<forall>j<length vs.
                  Read a (Index j) \<in> set (tlog st') \<and>
                  (\<exists>s1 s2. extends st s1 \<and>
                     traverse' n h (vs ! j) (logged (Read a (Index j)) s1) = Some s2 \<and>
                     extends s2 st'))) \<and>
            (\<forall>ps. shape ob = Object ps \<longrightarrow>
               (\<forall>k\<in>fst ` set ps.
                  Read a (Name k) \<in> set (tlog st') \<and>
                  (\<exists>s1 s2. extends st s1 \<and>
                     traverse' n h (own_prop ps k) (logged (Read a (Name k)) s1) = Some s2 \<and>
                     extends s2 st')))"
    if v: "v = Ref a" and ob: "h a = Some ob" "\<not> frozen ob" "\<not> vnode ob"
      "\<forall>d. ob_dep ob = Some d \<longrightarrow> d \<notin> seen st"
    for a ob
  proof -
    have t: "traverse' n h (Ref a) st = Some st'" using assms v by simp
    have d: "\<And>d. ob_dep ob = Some d \<Longrightarrow> d \<notin> seen st" using ob(4) by blast
    note visits = traverse'_visits [OF t ob(1-3) d]
    show ?thesis
    proof (intro conjI allI impI ballI)
      fix vs j
      assume s: "shape ob = Array vs" and j: "j < length vs"
      with visits [of j] show "Read a (Index j) \<in> set (tlog st')"
        by (simp add: entries_Array)
      from s j visits [of j]
      show "\<exists>s1 s2. extends st s1 \<and>
              traverse' n h (vs ! j) (logged (Read a (Index j)) s1) = Some s2 \<and> extends s2 st'"
        by (simp add: entries_Array)
    next
      fix ps k
      assume s: "shape ob = Object ps" and "k \<in> fst ` set ps"
      then obtain j where j: "j < length ps" "fst (ps ! j) = k"
        by (auto simp: in_set_conv_nth)
      with s visits [of j] show "Read a (Name k) \<in> set (tlog st')"
        by (simp add: entries_Object)
      from s j visits [of j]
      show "\<exists>s1 s2. extends st s1 \<and>
              traverse' n h (own_prop ps k) (logged (Read a (Name k)) s1) = Some s2 \<and>
              extends s2 st'"
        by (simp add: entries_Object)
    qed
  qed
  from 1 2 3 show ?thesis by blast
qed


lemma cyclic_heap_inner: "traverse' n cyclic_heap (Ref 1) st = None"
  by (induction n arbitrary: st) (simp_all add: cyclic_heap_def entries_def own_prop_def)

lemma cyclic_heap_outer: "traverse' n cyclic_heap (Ref 0) st = None"
proof (cases n)
  case 0
  then show ?thesis by simp
next
  case (Suc m)
  have "traverse' m cyclic_heap (Ref 1) (logged (Read 0 (Index 1)) st) = None"
    by (rule cyclic_heap_inner)
  then show ?thesis
    unfolding Suc by (simp add: cyclic_heap_def entries_def numeral_2_eq_2)
qed

text \<open>
  C8, amended. A call of \<open>_traverse\<close> returns for every value whose objects are
  finitely many and among whose objects each cycle passes through an object with an
  observer (or a frozen object or \<open>VNode\<close>). A call that returns has changed nothing, read no property and made no
  recursive call when the value is not an array or object, or is frozen, or is a
  \<open>VNode\<close>, and also when the value has an observer whose dep id is already in the
  visited set. Otherwise it has read every element of an array, and the value of
  every own enumerable key of another object, and has traversed what each of these
  reads gave, in a state reached from the state of the call and leading to the state
  at the return.
\<close>

theorem traverse_children:
  "(finite (reach h v) \<and> acyclic (plain_edges h \<inter> reach h v \<times> reach h v) \<longrightarrow>
      (\<exists>n st'. traverse' n h v st = Some st')) \<and>
   (\<forall>n st'. traverse' n h v st = Some st' \<longrightarrow>
      (leaf h v \<longrightarrow> st' = st) \<and>
      (\<forall>a ob d. v = Ref a \<and> h a = Some ob \<and> ob_dep ob = Some d \<and> d \<in> seen st \<longrightarrow>
         st' = st) \<and>
      (\<forall>a ob. v = Ref a \<and> h a = Some ob \<and> \<not> frozen ob \<and> \<not> vnode ob \<and>
              (\<forall>d. ob_dep ob = Some d \<longrightarrow> d \<notin> seen st) \<longrightarrow>
         (\<forall>vs. shape ob = Array vs \<longrightarrow>
            (\<forall>j<length vs.
               Read a (Index j) \<in> set (tlog st') \<and>
               (\<exists>s1 s2. extends st s1 \<and>
                  traverse' n h (vs ! j) (logged (Read a (Index j)) s1) = Some s2 \<and>
                  extends s2 st'))) \<and>
         (\<forall>ps. shape ob = Object ps \<longrightarrow>
            (\<forall>k\<in>fst ` set ps.
               Read a (Name k) \<in> set (tlog st') \<and>
               (\<exists>s1 s2. extends st s1 \<and>
                  traverse' n h (own_prop ps k) (logged (Read a (Name k)) s1) = Some s2 \<and>
                  extends s2 st')))))"
proof -
  have 1: "finite (reach h v) \<and> acyclic (plain_edges h \<inter> reach h v \<times> reach h v) \<longrightarrow>
      (\<exists>n st'. traverse' n h v st = Some st')"
    using traverse'_terminates_reach by blast
  from 1 traverse'_children [of _ h v st] show ?thesis by blast
qed

theorem traverse_children_witness:
  "finite (reach example_heap (Ref 1)) \<and>
   acyclic (plain_edges example_heap \<inter> reach example_heap (Ref 1) \<times> reach example_heap (Ref 1)) \<and>
   traverse' 2 example_heap (Ref 1) \<lparr>seen = {10}, tlog = []\<rparr> =
     Some \<lparr>seen = {10}, tlog = [Read 1 (Index 1), Read 1 (Index 0)]\<rparr> \<and>
   Read 1 (Index 0) \<in> set (tlog \<lparr>seen = {10}, tlog = [Read 1 (Index 1), Read 1 (Index 0)]\<rparr>) \<and>
   (\<exists>s1 s2. extends \<lparr>seen = {10}, tlog = []\<rparr> s1 \<and>
      traverse' 2 example_heap (Ref 0) (logged (Read 1 (Index 0)) s1) = Some s2 \<and>
      extends s2 \<lparr>seen = {10}, tlog = [Read 1 (Index 1), Read 1 (Index 0)]\<rparr>) \<and>
   (\<exists>n st'. traverse' n example_heap (Ref 1) \<lparr>seen = {10}, tlog = []\<rparr> = Some st')"
proof -
  let ?st = "\<lparr>seen = {10}, tlog = []\<rparr>"
  let ?st' = "\<lparr>seen = {10}, tlog = [Read 1 (Index 1), Read 1 (Index 0)]\<rparr>"
  have f: "finite (reach example_heap (Ref 1))"
    by (rule finite_reach) (simp add: example_heap_def)
  have "acyclic ({} :: (nat \<times> nat) set)" by (simp add: acyclic_def)
  then have "acyclic {(0::nat, 1::nat)}" by (simp add: acyclic_insert)
  then have a: "acyclic (plain_edges example_heap \<inter>
      reach example_heap (Ref 1) \<times> reach example_heap (Ref 1))"
    using example_heap_plain_edges by (blast intro: acyclic_subset)
  have c: "traverse' 2 example_heap (Ref 1) ?st = Some ?st'"
    by (simp add: example_heap_def entries_def logged_def numeral_2_eq_2)
  have o: "example_heap 1 =
      Some \<lparr>shape = Array [Ref 0, Num 3], frozen = False, vnode = False, ob_dep = None\<rparr>"
    by (simp add: example_heap_def)
  note r = traverse_children [of example_heap "Ref 1" ?st]
  from r f a have t: "\<exists>n st'. traverse' n example_heap (Ref 1) ?st = Some st'" by blast
  from r c have "\<forall>a ob. Ref 1 = Ref a \<and> example_heap a = Some ob \<and> \<not> frozen ob \<and> \<not> vnode ob \<and>
              (\<forall>d. ob_dep ob = Some d \<longrightarrow> d \<notin> seen ?st) \<longrightarrow>
         (\<forall>vs. shape ob = Array vs \<longrightarrow>
            (\<forall>j<length vs.
               Read a (Index j) \<in> set (tlog ?st') \<and>
               (\<exists>s1 s2. extends ?st s1 \<and>
                  traverse' 2 example_heap (vs ! j) (logged (Read a (Index j)) s1) = Some s2 \<and>
                  extends s2 ?st')))"
    by blast
  with o have "\<forall>j<length [Ref 0, Num 3].
          Read 1 (Index j) \<in> set (tlog ?st') \<and>
          (\<exists>s1 s2. extends ?st s1 \<and>
             traverse' 2 example_heap ([Ref 0, Num 3] ! j) (logged (Read 1 (Index j)) s1) = Some s2 \<and>
             extends s2 ?st')"
    by simp
  from this [rule_format, of 0] have
    "Read 1 (Index 0) \<in> set (tlog ?st') \<and>
     (\<exists>s1 s2. extends ?st s1 \<and>
        traverse' 2 example_heap (Ref 0) (logged (Read 1 (Index 0)) s1) = Some s2 \<and>
        extends s2 ?st')"
    by simp
  with f a c t show ?thesis by blast
qed

text \<open>
  C8 as stated fails in two ways. For a value whose dep id is already in the visited
  set: the object at 0 of the first heap is a plain object, not frozen and no
  \<open>VNode\<close>, with the own keys \<open>self\<close> and \<open>list\<close>, and \<open>_traverse\<close> returns
  without reading either. And for a value on which the traversal cannot end: the
  array at 0 of the second heap is not frozen and no \<open>VNode\<close>, and no call on it
  returns, at any depth of recursion.
\<close>

theorem traverse_seen_object_not_expanded:
  "example_heap 0 =
     Some \<lparr>shape = Object [(''self'', Ref 0), (''list'', Ref 1)], frozen = False,
           vnode = False, ob_dep = Some 10\<rparr> \<and>
   \<not> leaf example_heap (Ref 0) \<and>
   traverse' 2 example_heap (Ref 0) \<lparr>seen = {10}, tlog = []\<rparr> =
     Some \<lparr>seen = {10}, tlog = []\<rparr> \<and>
   Read 0 (Name ''self'') \<notin> set (tlog \<lparr>seen = {10}, tlog = []\<rparr>) \<and>
   cyclic_heap 0 =
     Some \<lparr>shape = Array [Num 1, Ref 1], frozen = False, vnode = False, ob_dep = None\<rparr> \<and>
   \<not> leaf cyclic_heap (Ref 0) \<and>
   \<not> (\<exists>n st'. traverse' n cyclic_heap (Ref 0) \<lparr>seen = {}, tlog = []\<rparr> = Some st')"
  by (simp add: example_heap_def leaf_def numeral_2_eq_2 cyclic_heap_outer)
     (simp add: cyclic_heap_def)

end
